theory Spec2Isabelle
  imports Main "HOL-Library.Word"
begin

section \<open>ElysionEngine: the entity-component core\<close>

text \<open>
  A shallow embedding of \<^verbatim>\<open>ECSDefines.hpp\<close>, \<^verbatim>\<open>Component.hpp\<close>, \<^verbatim>\<open>Entity.hpp\<close>,
  \<^verbatim>\<open>Entity.cpp\<close>, \<^verbatim>\<open>EntityManager.hpp\<close> and \<^verbatim>\<open>EntityManager.cpp\<close>.

  Entities and managers are objects reached through pointers and references
  (\<^verbatim>\<open>Entity*\<close> in the group lists, \<^verbatim>\<open>EntityManager&\<close> in every entity), so both live in
  an explicit store, a map from addresses to object values. The function-local statics of
  the type registry are one more part of the program state.
\<close>

subsection \<open>ECSDefines.hpp\<close>

type_synonym addr = nat

text \<open>A component class \<^verbatim>\<open>T\<close> (a template argument) is named by a number.\<close>

type_synonym tname = nat

text \<open>\<^verbatim>\<open>ComponentID\<close> is \<^verbatim>\<open>std::size_t\<close>, taken as 64 bits wide: \<^verbatim>\<open>last_id++\<close> wraps.\<close>

type_synonym ComponentID = "64 word"

text \<open>
  \<^verbatim>\<open>Group\<close> is \<^verbatim>\<open>std::size_t\<close> too; the code only compares it and indexes with it, so a
  natural number stands for it.
\<close>

type_synonym Group = nat

text \<open>A \<^verbatim>\<open>float\<close> is only passed on, never computed with: its 32 bits.\<close>

type_synonym float = "32 word"

definition max_components :: nat where
  "max_components = 32"

definition max_groups :: nat where
  "max_groups = 32"

type_synonym ComponentBitset = "32 word"
type_synonym GroupBitset = "32 word"

text \<open>
  How a call can go wrong. \<open>AssertFailed\<close> is an \<^verbatim>\<open>assert\<close> that fires: the program
  aborts with a diagnostic (assertions are taken as compiled in, that is, \<^verbatim>\<open>NDEBUG\<close> is
  not defined). The other two are undefined behaviour that the code does not look for: \<open>OutOfRange\<close> is \<^verbatim>\<open>operator[]\<close> of a \<^verbatim>\<open>std::bitset<32>\<close> or a
  \<^verbatim>\<open>std::array<_, 32>\<close> at a position of 32 or more (neither checks its argument), and
  \<open>BadPointer\<close> is the use of a null or dangling pointer or reference.
\<close>

datatype error = AssertFailed | OutOfRange | BadPointer

fun detected :: "error \<Rightarrow> bool" where
  "detected AssertFailed = True"
| "detected OutOfRange = False"
| "detected BadPointer = False"

text \<open>
  The registry: \<open>last_id\<close> is the static of \<^verbatim>\<open>Internal::get_unique_component_id\<close>, and
  \<open>type_id T\<close> is the static of the instance \<^verbatim>\<open>get_component_type_id<T>\<close>, \<open>None\<close> until
  its initialiser has run (at the first call).
\<close>

record Registry =
  last_id :: ComponentID
  type_id :: "tname \<rightharpoonup> ComponentID"

definition initial_registry :: Registry where
  "initial_registry = \<lparr>last_id = 0, type_id = Map.empty\<rparr>"

definition get_unique_component_id :: "Registry \<Rightarrow> ComponentID \<times> Registry" where
  "get_unique_component_id r = (last_id r, r\<lparr>last_id := last_id r + 1\<rparr>)"

definition get_component_type_id :: "tname \<Rightarrow> Registry \<Rightarrow> ComponentID \<times> Registry" where
  "get_component_type_id T r =
     (case type_id r T of
        Some i \<Rightarrow> (i, r)
      | None \<Rightarrow>
          (case get_unique_component_id r of
             (i, r') \<Rightarrow> (i, r'\<lparr>type_id := (type_id r')(T \<mapsto> i)\<rparr>)))"

text \<open>
  A run of calls \<^verbatim>\<open>get_component_type_id<T>()\<close>, one for each type of the list in turn:
  the ids returned and the registry left behind.
\<close>

fun type_id_calls :: "tname list \<Rightarrow> Registry \<Rightarrow> ComponentID list \<times> Registry" where
  "type_id_calls [] r = ([], r)"
| "type_id_calls (T # Ts) r =
     (case get_component_type_id T r of
        (i, r') \<Rightarrow> (case type_id_calls Ts r' of (is, r'') \<Rightarrow> (i # is, r'')))"

subsection \<open>Component.hpp\<close>

text \<open>
  A component object: the public back pointer \<^verbatim>\<open>entity\<close> (\<open>None\<close> is \<^verbatim>\<open>nullptr\<close>) and the
  class it was constructed as. Its constructor arguments and the data of derived classes
  play no part in the core.
\<close>

record Component =
  entity :: "addr option"
  dyn_type :: tname

subsection \<open>Entity.hpp, EntityManager.hpp\<close>

text \<open>
  A \<^verbatim>\<open>std::unique_ptr<Component>\<close> of \<open>m_components\<close> is a \<^verbatim>\<open>Component*\<close>, the address of
  the \<^verbatim>\<open>Component\<close> subobject of the component, together with the component it owns.
  \<open>m_component_array\<close> holds plain \<^verbatim>\<open>Component*\<close>; only positions below
  \<open>max_components\<close> exist.
\<close>

record Entity =
  m_manager :: addr
  m_alive :: bool
  m_components :: "(addr \<times> Component) list"
  m_component_array :: "nat \<Rightarrow> addr option"
  m_component_bitset :: ComponentBitset
  m_group_bitset :: GroupBitset

text \<open>
  \<open>m_entities\<close> owns its entities (the addresses of \<^verbatim>\<open>std::unique_ptr<Entity>\<close>);
  \<open>m_groupedEntities\<close> is the array of 32 vectors of plain pointers, of which only
  positions below \<open>max_groups\<close> exist.
\<close>

record EntityManager =
  m_entities :: "addr list"
  m_groupedEntities :: "nat \<Rightarrow> addr list"

datatype event =
    EntityUpdate addr float
  | ComponentUpdate addr float
  | EntityDraw addr
  | ComponentDraw addr

text \<open>
  The program state: the registry, the two stores, the next address \<^verbatim>\<open>new\<close> hands out,
  and the calls of \<^verbatim>\<open>update\<close> and \<^verbatim>\<open>draw\<close> made so far, oldest first.
\<close>

record World =
  registry :: Registry
  entities :: "addr \<rightharpoonup> Entity"
  managers :: "addr \<rightharpoonup> EntityManager"
  next_addr :: addr
  trace :: "event list"

definition initial_world :: World where
  "initial_world =
     \<lparr>registry = initial_registry, entities = Map.empty, managers = Map.empty,
      next_addr = 0, trace = []\<rparr>"

subsection \<open>Entity\<close>

text \<open>\<^verbatim>\<open>Entity::Entity(EntityManager& manager)\<close> with the default member initialisers.\<close>

definition Entity_ctor :: "addr \<Rightarrow> Entity" where
  "Entity_ctor manager =
     \<lparr>m_manager = manager, m_alive = True, m_components = [],
      m_component_array = (\<lambda>_. None), m_component_bitset = 0, m_group_bitset = 0\<rparr>"

text \<open>The member functions that touch nothing but \<^verbatim>\<open>*this\<close>, as functions of the object.\<close>

definition is_alive :: "Entity \<Rightarrow> bool" where
  "is_alive e = m_alive e"

definition destroy :: "Entity \<Rightarrow> Entity" where
  "destroy e = e\<lparr>m_alive := False\<rparr>"

definition has_group :: "Entity \<Rightarrow> Group \<Rightarrow> error + bool" where
  "has_group e g =
     (if g < max_groups then Inr (bit (m_group_bitset e) g) else Inl OutOfRange)"

definition remove_group :: "Entity \<Rightarrow> Group \<Rightarrow> error + Entity" where
  "remove_group e g =
     (if g < max_groups then Inr (e\<lparr>m_group_bitset := unset_bit g (m_group_bitset e)\<rparr>)
      else Inl OutOfRange)"

text \<open>The same member functions called through a pointer to the entity.\<close>

definition is_alive_at :: "World \<Rightarrow> addr \<Rightarrow> error + bool" where
  "is_alive_at w p =
     (case entities w p of None \<Rightarrow> Inl BadPointer | Some e \<Rightarrow> Inr (is_alive e))"

definition destroy_at :: "World \<Rightarrow> addr \<Rightarrow> error + World" where
  "destroy_at w p =
     (case entities w p of
        None \<Rightarrow> Inl BadPointer
      | Some e \<Rightarrow> Inr (w\<lparr>entities := (entities w)(p \<mapsto> destroy e)\<rparr>))"

definition has_group_at :: "World \<Rightarrow> addr \<Rightarrow> Group \<Rightarrow> error + bool" where
  "has_group_at w p g =
     (case entities w p of None \<Rightarrow> Inl BadPointer | Some e \<Rightarrow> has_group e g)"

definition remove_group_at :: "World \<Rightarrow> addr \<Rightarrow> Group \<Rightarrow> error + World" where
  "remove_group_at w p g =
     (case entities w p of
        None \<Rightarrow> Inl BadPointer
      | Some e \<Rightarrow>
          (case remove_group e g of
             Inl x \<Rightarrow> Inl x
           | Inr e' \<Rightarrow> Inr (w\<lparr>entities := (entities w)(p \<mapsto> e')\<rparr>)))"

subsection \<open>EntityManager: groups\<close>

definition add_to_group :: "World \<Rightarrow> addr \<Rightarrow> addr \<Rightarrow> Group \<Rightarrow> error + World" where
  "add_to_group w m p g =
     (case managers w m of
        None \<Rightarrow> Inl BadPointer
      | Some mgr \<Rightarrow>
          (if g < max_groups
           then Inr (w\<lparr>managers := (managers w)(m \<mapsto>
                  mgr\<lparr>m_groupedEntities :=
                    (m_groupedEntities mgr)(g := m_groupedEntities mgr g @ [p])\<rparr>)\<rparr>)
           else Inl OutOfRange))"

definition get_entities_by_group :: "World \<Rightarrow> addr \<Rightarrow> Group \<Rightarrow> error + addr list" where
  "get_entities_by_group w m g =
     (case managers w m of
        None \<Rightarrow> Inl BadPointer
      | Some mgr \<Rightarrow> (if g < max_groups then Inr (m_groupedEntities mgr g) else Inl OutOfRange))"

text \<open>
  \<^verbatim>\<open>Entity::add_group\<close>: the bit is written first, then the entity's own manager appends
  the pointer \<^verbatim>\<open>this\<close>.
\<close>

definition add_group :: "World \<Rightarrow> addr \<Rightarrow> Group \<Rightarrow> error + World" where
  "add_group w p g =
     (case entities w p of
        None \<Rightarrow> Inl BadPointer
      | Some e \<Rightarrow>
          (if g < max_groups
           then add_to_group
                  (w\<lparr>entities := (entities w)(p \<mapsto>
                       e\<lparr>m_group_bitset := set_bit g (m_group_bitset e)\<rparr>)\<rparr>)
                  (m_manager e) p g
           else Inl OutOfRange))"

subsection \<open>Entity: components\<close>

text \<open>
  \<^verbatim>\<open>has_component<T>\<close> reads the bit at \<^verbatim>\<open>get_component_type_id<T>()\<close>; that call gives
  \<^verbatim>\<open>T\<close> its id when it is the first one for \<^verbatim>\<open>T\<close>, so the registry is part of the result.
\<close>

definition has_component :: "World \<Rightarrow> addr \<Rightarrow> tname \<Rightarrow> error + bool \<times> World" where
  "has_component w p T =
     (case entities w p of
        None \<Rightarrow> Inl BadPointer
      | Some e \<Rightarrow>
          (case get_component_type_id T (registry w) of
             (i, r) \<Rightarrow>
               (if unat i < max_components
                then Inr (bit (m_component_bitset e) (unat i), w\<lparr>registry := r\<rparr>)
                else Inl OutOfRange)))"

text \<open>
  The layout of the component classes is not part of these sources: the classes are
  written by the users of the core, and the implementation places their base subobjects.
  It is a parameter, the offset of the \<^verbatim>\<open>Component\<close> base subobject within an object of
  each class. The offset is 0 for a class that derives from \<^verbatim>\<open>Component\<close> alone; it is
  not 0 for \<^verbatim>\<open>struct T : Other, Component\<close> when \<^verbatim>\<open>Other\<close> is not empty, a class that the
  \<^verbatim>\<open>static_assert\<close> of \<^verbatim>\<open>get_component_type_id\<close> (\<^verbatim>\<open>std::is_base_of\<close>) admits.
\<close>

type_synonym layout = "tname \<Rightarrow> nat"

text \<open>
  The implicit conversion of a \<^verbatim>\<open>T*\<close> to a \<^verbatim>\<open>Component*\<close> (in
  \<^verbatim>\<open>std::unique_ptr<Component> uPtr{ c }\<close> and in \<^verbatim>\<open>m_component_array[...] = c\<close>) moves
  the pointer to the base subobject.
\<close>

definition to_Component :: "layout \<Rightarrow> tname \<Rightarrow> addr \<Rightarrow> addr" where
  "to_Component off T c = c + off T"

text \<open>\<^verbatim>\<open>reinterpret_cast<T*>\<close> of a \<^verbatim>\<open>Component*\<close> keeps the address as it is.\<close>

definition reinterpret_cast :: "addr \<Rightarrow> addr" where
  "reinterpret_cast ptr = ptr"

text \<open>
  \<^verbatim>\<open>add_component<T>\<close>: the assertion, \<^verbatim>\<open>new T\<close> at the next free address, the back
  pointer, the owning entry appended, then the array slot and the bit, each at a fresh
  call of \<^verbatim>\<open>get_component_type_id<T>()\<close>. Both the owning entry and the array slot hold
  the converted pointer. The result, \<^verbatim>\<open>*c\<close>, is the address of the new object of class
  \<^verbatim>\<open>T\<close>. Addresses are abstract: the object takes those from \<open>c\<close> up to its
  \<^verbatim>\<open>Component\<close> subobject, and \<^verbatim>\<open>new\<close> goes on after them.
\<close>

definition add_component ::
  "layout \<Rightarrow> World \<Rightarrow> addr \<Rightarrow> tname \<Rightarrow> error + addr \<times> World" where
  "add_component off w p T =
     (case has_component w p T of
        Inl x \<Rightarrow> Inl x
      | Inr (b, w1) \<Rightarrow>
          (if b then Inl AssertFailed
           else
             (case entities w1 p of
                None \<Rightarrow> Inl BadPointer
              | Some e \<Rightarrow>
                  (let c = next_addr w1;
                       comp = \<lparr>entity = Some p, dyn_type = T\<rparr>;
                       uPtr = to_Component off T c;
                       e1 = e\<lparr>m_components := m_components e @ [(uPtr, comp)]\<rparr>
                   in
                     (case get_component_type_id T (registry w1) of
                        (i, r1) \<Rightarrow>
                          (if unat i < max_components
                           then
                             (let e2 = e1\<lparr>m_component_array :=
                                         (m_component_array e1)
                                           (unat i := Some (to_Component off T c))\<rparr>
                              in
                                (case get_component_type_id T r1 of
                                   (j, r2) \<Rightarrow>
                                     (if unat j < max_components
                                      then
                                        Inr (c, w1\<lparr>registry := r2,
                                                 entities := (entities w1)(p \<mapsto>
                                                   e2\<lparr>m_component_bitset :=
                                                        set_bit (unat j) (m_component_bitset e2)\<rparr>),
                                                 next_addr := Suc (to_Component off T c)\<rparr>)
                                      else Inl OutOfRange)))
                           else Inl OutOfRange))))))"

text \<open>
  \<^verbatim>\<open>get_component<T>\<close>: the assertion, then the array slot, a \<^verbatim>\<open>Component*\<close>,
  reinterpreted as a \<^verbatim>\<open>T*\<close> and dereferenced. The result is the address that the
  reference returned refers to.
\<close>

definition get_component :: "World \<Rightarrow> addr \<Rightarrow> tname \<Rightarrow> error + addr \<times> World" where
  "get_component w p T =
     (case has_component w p T of
        Inl x \<Rightarrow> Inl x
      | Inr (b, w1) \<Rightarrow>
          (if \<not> b then Inl AssertFailed
           else
             (case entities w1 p of
                None \<Rightarrow> Inl BadPointer
              | Some e \<Rightarrow>
                  (case get_component_type_id T (registry w1) of
                     (i, r1) \<Rightarrow>
                       (if unat i < max_components
                        then
                          (case m_component_array e (unat i) of
                             None \<Rightarrow> Inl BadPointer
                           | Some ptr \<Rightarrow> Inr (reinterpret_cast ptr, w1\<lparr>registry := r1\<rparr>))
                        else Inl OutOfRange)))))"

subsection \<open>update and draw\<close>

text \<open>
  Modelled from the spec: the bodies of \<^verbatim>\<open>Component::update\<close> and \<^verbatim>\<open>Component::draw\<close>
  (\<^verbatim>\<open>Component.cpp\<close>) are not among the sources; by the spec both are no-ops by default.
  The call is recorded in the trace, which is how the order of dispatch can be stated.
\<close>

definition Component_update :: "World \<Rightarrow> addr \<Rightarrow> float \<Rightarrow> World" where
  "Component_update w c dt = w\<lparr>trace := trace w @ [ComponentUpdate c dt]\<rparr>"

definition Component_draw :: "World \<Rightarrow> addr \<Rightarrow> World" where
  "Component_draw w c = w\<lparr>trace := trace w @ [ComponentDraw c]\<rparr>"

text \<open>The loops of \<^verbatim>\<open>Entity::update\<close> and \<^verbatim>\<open>Entity::draw\<close> over \<open>m_components\<close>.\<close>

fun update_components :: "World \<Rightarrow> (addr \<times> Component) list \<Rightarrow> float \<Rightarrow> World" where
  "update_components w [] dt = w"
| "update_components w (c # cs) dt = update_components (Component_update w (fst c) dt) cs dt"

fun draw_components :: "World \<Rightarrow> (addr \<times> Component) list \<Rightarrow> World" where
  "draw_components w [] = w"
| "draw_components w (c # cs) = draw_components (Component_draw w (fst c)) cs"

definition Entity_update :: "World \<Rightarrow> addr \<Rightarrow> float \<Rightarrow> error + World" where
  "Entity_update w p dt =
     (case entities w p of
        None \<Rightarrow> Inl BadPointer
      | Some e \<Rightarrow>
          Inr (update_components (w\<lparr>trace := trace w @ [EntityUpdate p dt]\<rparr>)
                 (m_components e) dt))"

definition Entity_draw :: "World \<Rightarrow> addr \<Rightarrow> error + World" where
  "Entity_draw w p =
     (case entities w p of
        None \<Rightarrow> Inl BadPointer
      | Some e \<Rightarrow>
          Inr (draw_components (w\<lparr>trace := trace w @ [EntityDraw p]\<rparr>) (m_components e)))"

text \<open>The loops of \<^verbatim>\<open>EntityManager::update\<close> and \<^verbatim>\<open>EntityManager::draw\<close> over \<open>m_entities\<close>.\<close>

fun update_entities :: "World \<Rightarrow> addr list \<Rightarrow> float \<Rightarrow> error + World" where
  "update_entities w [] dt = Inr w"
| "update_entities w (p # ps) dt =
     (case Entity_update w p dt of Inl x \<Rightarrow> Inl x | Inr w' \<Rightarrow> update_entities w' ps dt)"

fun draw_entities :: "World \<Rightarrow> addr list \<Rightarrow> error + World" where
  "draw_entities w [] = Inr w"
| "draw_entities w (p # ps) =
     (case Entity_draw w p of Inl x \<Rightarrow> Inl x | Inr w' \<Rightarrow> draw_entities w' ps)"

definition EntityManager_update :: "World \<Rightarrow> addr \<Rightarrow> float \<Rightarrow> error + World" where
  "EntityManager_update w m dt =
     (case managers w m of
        None \<Rightarrow> Inl BadPointer
      | Some mgr \<Rightarrow> update_entities w (m_entities mgr) dt)"

definition EntityManager_draw :: "World \<Rightarrow> addr \<Rightarrow> error + World" where
  "EntityManager_draw w m =
     (case managers w m of
        None \<Rightarrow> Inl BadPointer
      | Some mgr \<Rightarrow> draw_entities w (m_entities mgr))"

subsection \<open>EntityManager: add\_entity and refresh\<close>

text \<open>
  The implicit default constructor of \<^verbatim>\<open>EntityManager\<close>: both members are
  value-initialised (\<^verbatim>\<open>{}\<close>).
\<close>

definition EntityManager_ctor :: EntityManager where
  "EntityManager_ctor = \<lparr>m_entities = [], m_groupedEntities = (\<lambda>_. [])\<rparr>"

text \<open>
  A manager object comes into being (\<^verbatim>\<open>EntityManager manager{}\<close>), and so does an entity
  that no manager owns (\<^verbatim>\<open>Entity entity{manager}\<close>, the constructor is public), each at
  the next free address. The result is that address and the new state.
\<close>

definition new_EntityManager :: "World \<Rightarrow> addr \<times> World" where
  "new_EntityManager w =
     (next_addr w,
      w\<lparr>managers := (managers w)(next_addr w \<mapsto> EntityManager_ctor),
        next_addr := Suc (next_addr w)\<rparr>)"

definition new_Entity :: "World \<Rightarrow> addr \<Rightarrow> addr \<times> World" where
  "new_Entity w manager =
     (next_addr w,
      w\<lparr>entities := (entities w)(next_addr w \<mapsto> Entity_ctor manager),
        next_addr := Suc (next_addr w)\<rparr>)"

definition add_entity :: "World \<Rightarrow> addr \<Rightarrow> error + addr \<times> World" where
  "add_entity w m =
     (case managers w m of
        None \<Rightarrow> Inl BadPointer
      | Some mgr \<Rightarrow>
          (let e = next_addr w
           in Inr (e, w\<lparr>entities := (entities w)(e \<mapsto> Entity_ctor m),
                        managers := (managers w)(m \<mapsto>
                          mgr\<lparr>m_entities := m_entities mgr @ [e]\<rparr>),
                        next_addr := Suc e\<rparr>)))"

text \<open>
  The predicate of the first \<^verbatim>\<open>remove_if\<close>, for group \<open>i\<close>:
  \<^verbatim>\<open>!mEntity->is_alive() || !mEntity->has_group(i)\<close>, the second operand read only when
  the entity is alive.
\<close>

definition group_pred :: "(addr \<rightharpoonup> Entity) \<Rightarrow> nat \<Rightarrow> addr \<Rightarrow> error + bool" where
  "group_pred h i p =
     (case h p of
        None \<Rightarrow> Inl BadPointer
      | Some e \<Rightarrow>
          (if \<not> is_alive e then Inr True
           else (case has_group e i of Inl x \<Rightarrow> Inl x | Inr b \<Rightarrow> Inr (\<not> b))))"

text \<open>
  \<^verbatim>\<open>v.erase(std::remove_if(begin, end, pred), end)\<close> on one group vector: the predicate
  runs on each element from the front; the elements for which it is false stay, in their
  order, and the others go.
\<close>

fun erase_group :: "(addr \<rightharpoonup> Entity) \<Rightarrow> nat \<Rightarrow> addr list \<Rightarrow> error + addr list" where
  "erase_group h i [] = Inr []"
| "erase_group h i (p # ps) =
     (case group_pred h i p of
        Inl x \<Rightarrow> Inl x
      | Inr rm \<Rightarrow>
          (case erase_group h i ps of
             Inl x \<Rightarrow> Inl x
           | Inr ks \<Rightarrow> Inr (if rm then ks else p # ks)))"

text \<open>The loop \<^verbatim>\<open>for (auto i(0u); i < max_groups; ++i)\<close>, from \<open>i\<close> on.\<close>

function refresh_groups ::
  "(addr \<rightharpoonup> Entity) \<Rightarrow> nat \<Rightarrow> (nat \<Rightarrow> addr list) \<Rightarrow> error + (nat \<Rightarrow> addr list)" where
  "refresh_groups h i G =
     (if i < max_groups
      then (case erase_group h i (G i) of
              Inl x \<Rightarrow> Inl x
            | Inr v \<Rightarrow> refresh_groups h (Suc i) (G(i := v)))
      else Inr G)"
  by pat_completeness auto
termination
  by (relation "measure (\<lambda>(h, i, G). max_groups - i)") auto

declare refresh_groups.simps [simp del]

text \<open>
  The second \<^verbatim>\<open>erase\<close>/\<^verbatim>\<open>remove_if\<close>, on \<open>m_entities\<close>, with the predicate
  \<^verbatim>\<open>!entity->is_alive()\<close>. A \<^verbatim>\<open>unique_ptr\<close> that is removed deletes its entity, and with
  it the components the entity owns: the entity leaves the store (here as soon as its
  predicate has run; the predicate reads nothing but its own element). The result is the
  pointers kept, in their order, and the store.
\<close>

fun erase_entities ::
  "(addr \<rightharpoonup> Entity) \<Rightarrow> addr list \<Rightarrow> error + addr list \<times> (addr \<rightharpoonup> Entity)" where
  "erase_entities h [] = Inr ([], h)"
| "erase_entities h (p # ps) =
     (case h p of
        None \<Rightarrow> Inl BadPointer
      | Some e \<Rightarrow>
          (if \<not> is_alive e then erase_entities (h(p := None)) ps
           else (case erase_entities h ps of
                   Inl x \<Rightarrow> Inl x
                 | Inr (ks, h') \<Rightarrow> Inr (p # ks, h'))))"

definition refresh :: "World \<Rightarrow> addr \<Rightarrow> error + World" where
  "refresh w m =
     (case managers w m of
        None \<Rightarrow> Inl BadPointer
      | Some mgr \<Rightarrow>
          (case refresh_groups (entities w) 0 (m_groupedEntities mgr) of
             Inl x \<Rightarrow> Inl x
           | Inr G \<Rightarrow>
               (case erase_entities (entities w) (m_entities mgr) of
                  Inl x \<Rightarrow> Inl x
                | Inr (ks, h) \<Rightarrow>
                    Inr (w\<lparr>entities := h,
                           managers := (managers w)(m \<mapsto>
                             \<lparr>m_entities = ks, m_groupedEntities = G\<rparr>)\<rparr>))))"

subsection \<open>Auxiliary notions and example states\<close>

text \<open>The pointer \<open>p\<close> refers to an entity of the store \<open>h\<close> that is alive.\<close>

definition alive_in :: "(addr \<rightharpoonup> Entity) \<Rightarrow> addr \<Rightarrow> bool" where
  "alive_in h p = (case h p of None \<Rightarrow> False | Some e \<Rightarrow> is_alive e)"

text \<open>
  A manager at address 0 that owns the entities at 10, 11 and 12. Entity 10 has been
  destroyed; 10 and 11 carry the bit of group 3; 12 was added to group 3 and has left it
  again; 11 was added twice.
\<close>

definition example_world :: World where
  "example_world =
     \<lparr>registry = initial_registry,
      entities = [10 \<mapsto> (Entity_ctor 0)\<lparr>m_alive := False, m_group_bitset := 8\<rparr>,
                  11 \<mapsto> (Entity_ctor 0)\<lparr>m_group_bitset := 8\<rparr>,
                  12 \<mapsto> Entity_ctor 0],
      managers = [0 \<mapsto> \<lparr>m_entities = [10, 11, 12],
                          m_groupedEntities = (\<lambda>g. if g = 3 then [10, 11, 11, 12] else [])\<rparr>],
      next_addr = 13, trace = []\<rparr>"

definition refreshed_world :: World where
  "refreshed_world =
     \<lparr>registry = initial_registry,
      entities = [11 \<mapsto> (Entity_ctor 0)\<lparr>m_group_bitset := 8\<rparr>,
                  12 \<mapsto> Entity_ctor 0],
      managers = [0 \<mapsto> \<lparr>m_entities = [11, 12],
                          m_groupedEntities = (\<lambda>g. if g = 3 then [11, 11] else [])\<rparr>],
      next_addr = 13, trace = []\<rparr>"

text \<open>The position of the first occurrence of \<open>x\<close> in \<open>xs\<close> (the length when there is none).\<close>

fun first_index :: "'a list \<Rightarrow> 'a \<Rightarrow> nat" where
  "first_index [] x = 0"
| "first_index (y # ys) x = (if x = y then 0 else Suc (first_index ys x))"

text \<open>The distinct elements of a list, in the order of their first occurrences.\<close>

fun first_uses :: "'a list \<Rightarrow> 'a list \<Rightarrow> 'a list" where
  "first_uses seen [] = seen"
| "first_uses seen (x # xs) = first_uses (if x \<in> set seen then seen else seen @ [x]) xs"

text \<open>
  The registry after the types of \<open>seen\<close>, all different, have been given their ids in
  this order.
\<close>

definition registry_of :: "tname list \<Rightarrow> Registry" where
  "registry_of seen =
     \<lparr>last_id = word_of_nat (length seen),
      type_id = (\<lambda>T. if T \<in> set seen then Some (word_of_nat (first_index seen T)) else None)\<rparr>"

text \<open>
  The calls that \<^verbatim>\<open>Entity::update(dt)\<close> on the entity at \<open>p\<close> consists of: the call itself,
  then \<^verbatim>\<open>update(dt)\<close> on each component of \<open>m_components\<close> from the front. Likewise for
  \<^verbatim>\<open>draw\<close>.
\<close>

definition update_calls :: "World \<Rightarrow> float \<Rightarrow> addr \<Rightarrow> event list" where
  "update_calls w dt p =
     (case entities w p of
        None \<Rightarrow> []
      | Some e \<Rightarrow> EntityUpdate p dt # map (\<lambda>c. ComponentUpdate (fst c) dt) (m_components e))"

definition draw_calls :: "World \<Rightarrow> addr \<Rightarrow> event list" where
  "draw_calls w p =
     (case entities w p of
        None \<Rightarrow> []
      | Some e \<Rightarrow> EntityDraw p # map (\<lambda>c. ComponentDraw (fst c)) (m_components e))"

text \<open>
  A manager at address 0 that owns the entities at 10 and 11. Entity 10 has been destroyed
  and owns two components (classes 0 and 1, at 20 and 21); entity 11 owns one (class 1, at
  22).
\<close>

definition dispatch_world :: World where
  "dispatch_world =
     \<lparr>registry = \<lparr>last_id = 2, type_id = [0 \<mapsto> 0, 1 \<mapsto> 1]\<rparr>,
      entities =
        [10 \<mapsto> (Entity_ctor 0)\<lparr>m_alive := False,
                 m_components := [(20, \<lparr>entity = Some 10, dyn_type = 0\<rparr>),
                                  (21, \<lparr>entity = Some 10, dyn_type = 1\<rparr>)],
                 m_component_array := [0 \<mapsto> 20, 1 \<mapsto> 21],
                 m_component_bitset := 3\<rparr>,
         11 \<mapsto> (Entity_ctor 0)\<lparr>
                 m_components := [(22, \<lparr>entity = Some 11, dyn_type = 1\<rparr>)],
                 m_component_array := [1 \<mapsto> 22],
                 m_component_bitset := 2\<rparr>],
      managers = [0 \<mapsto> \<lparr>m_entities = [10, 11], m_groupedEntities = (\<lambda>g. [])\<rparr>],
      next_addr = 23, trace = []\<rparr>"


text \<open>The components of class \<open>T\<close> that the entity at \<open>p\<close> owns.\<close>

definition instances_of :: "World \<Rightarrow> addr \<Rightarrow> tname \<Rightarrow> (addr \<times> Component) list" where
  "instances_of w p T =
     (case entities w p of
        None \<Rightarrow> []
      | Some e \<Rightarrow> filter (\<lambda>c. dyn_type (snd c) = T) (m_components e))"

text \<open>\<^verbatim>\<open>new\<close> has not yet handed out the address of an entity again.\<close>

definition alloc_ok :: "World \<Rightarrow> bool" where
  "alloc_ok w \<longleftrightarrow> (\<forall>q \<in> dom (entities w). q < next_addr w)"

text \<open>
  The entity at \<open>p\<close> has the bit of class \<open>T\<close> set, and its array slot for \<open>T\<close> points
  to the component at \<open>c\<close>.
\<close>

definition slot :: "World \<Rightarrow> addr \<Rightarrow> tname \<Rightarrow> addr \<Rightarrow> bool" where
  "slot w p T c \<longleftrightarrow>
     (\<exists>e i. entities w p = Some e \<and> type_id (registry w) T = Some i \<and>
        unat i < max_components \<and> bit (m_component_bitset e) (unat i) \<and>
        m_component_array e (unat i) = Some c)"

text \<open>
  One call of the interface that returns takes the state \<open>w\<close> to \<open>w'\<close>, the component
  classes being laid out as \<open>off\<close> says.
\<close>

inductive step :: "layout \<Rightarrow> World \<Rightarrow> World \<Rightarrow> bool" for off :: layout where
  step_new_EntityManager: "new_EntityManager w = (m, w') \<Longrightarrow> step off w w'"
| step_new_Entity: "new_Entity w m = (q, w') \<Longrightarrow> step off w w'"
| step_type_id: "get_component_type_id U (registry w) = (i, r) \<Longrightarrow> step off w (w\<lparr>registry := r\<rparr>)"
| step_add_entity: "add_entity w m = Inr (q, w') \<Longrightarrow> step off w w'"
| step_destroy: "destroy_at w q = Inr w' \<Longrightarrow> step off w w'"
| step_add_group: "add_group w q g = Inr w' \<Longrightarrow> step off w w'"
| step_remove_group: "remove_group_at w q g = Inr w' \<Longrightarrow> step off w w'"
| step_add_to_group: "add_to_group w m q g = Inr w' \<Longrightarrow> step off w w'"
| step_has_component: "has_component w q U = Inr (b, w') \<Longrightarrow> step off w w'"
| step_add_component: "add_component off w q U = Inr (c, w') \<Longrightarrow> step off w w'"
| step_get_component: "get_component w q U = Inr (c, w') \<Longrightarrow> step off w w'"
| step_Entity_update: "Entity_update w q dt = Inr w' \<Longrightarrow> step off w w'"
| step_Entity_draw: "Entity_draw w q = Inr w' \<Longrightarrow> step off w w'"
| step_update: "EntityManager_update w m dt = Inr w' \<Longrightarrow> step off w w'"
| step_draw: "EntityManager_draw w m = Inr w' \<Longrightarrow> step off w w'"
| step_refresh: "refresh w m = Inr w' \<Longrightarrow> step off w w'"

text \<open>The states the program can be in: those that calls of the interface lead to.\<close>

definition reachable :: "layout \<Rightarrow> World \<Rightarrow> bool" where
  "reachable off w \<longleftrightarrow> (step off)\<^sup>*\<^sup>* initial_world w"

text \<open>
  The class of every component that an entity owns has an id below \<open>max_components\<close>,
  and the entity has the bit of that id set.
\<close>

definition components_registered :: "World \<Rightarrow> bool" where
  "components_registered w \<longleftrightarrow>
     (\<forall>q e x. entities w q = Some e \<and> x \<in> set (m_components e) \<longrightarrow>
        (\<exists>i. type_id (registry w) (dyn_type (snd x)) = Some i \<and>
             unat i < max_components \<and> bit (m_component_bitset e) (unat i)))"

text \<open>
  What every step keeps, for the component \<open>c\<close> of class \<open>T\<close> of the entity at \<open>p\<close>:
  addresses are not handed out twice, components stay registered, an entity that is gone
  stays gone, and while the entity is there its slot for \<open>T\<close> and its components of class \<open>T\<close> are as they were.
\<close>

definition preserves :: "addr \<Rightarrow> tname \<Rightarrow> addr \<Rightarrow> World \<Rightarrow> World \<Rightarrow> bool" where
  "preserves p T c w w' \<longleftrightarrow>
     (alloc_ok w \<longrightarrow> alloc_ok w') \<and> next_addr w \<le> next_addr w' \<and>
     (components_registered w \<longrightarrow> components_registered w') \<and>
     (alloc_ok w \<and> p < next_addr w \<and> entities w p = None \<longrightarrow> entities w' p = None) \<and>
     (alloc_ok w \<and> slot w p T c \<and> p \<in> dom (entities w') \<longrightarrow>
        slot w' p T c \<and> instances_of w' p T = instances_of w p T)"

section \<open>Properties\<close>

subsection \<open>The two filters of refresh\<close>

lemma group_pred_False:
  "group_pred h i p = Inr False \<longleftrightarrow>
     (\<exists>e. h p = Some e \<and> is_alive e \<and> has_group e i = Inr True)"
  by (auto simp: group_pred_def split: option.splits sum.splits)

lemma erase_group_filter:
  "erase_group h i ps = Inr ks \<Longrightarrow> ks = filter (\<lambda>p. group_pred h i p = Inr False) ps"
  by (induction ps arbitrary: ks) (auto split: sum.splits)

lemma refresh_groups_filter:
  "refresh_groups h i G = Inr G' \<Longrightarrow>
     G' g = (if i \<le> g \<and> g < max_groups
             then filter (\<lambda>p. group_pred h g p = Inr False) (G g) else G g)"
proof (induction h i G rule: refresh_groups.induct)
  case (1 h i G)
  show ?case
  proof (cases "i < max_groups")
    case True
    with "1.prems" obtain v where v: "erase_group h i (G i) = Inr v"
      and r: "refresh_groups h (Suc i) (G(i := v)) = Inr G'"
      by (subst (asm) refresh_groups.simps) (auto split: sum.splits)
    from "1.IH"[OF True v r] erase_group_filter[OF v] True show ?thesis
      by (auto simp: le_Suc_eq)
  next
    case False
    with "1.prems" show ?thesis
      by (subst (asm) refresh_groups.simps) auto
  qed
qed

text \<open>
  The second filter keeps the entities that are alive, and takes the others, and only
  them, out of the store.
\<close>

lemma erase_entities_filter:
  "erase_entities h ps = Inr (ks, h') \<Longrightarrow>
     ks = filter (alive_in h) ps \<and>
     (\<forall>q. h' q = (if q \<in> set ps \<and> \<not> alive_in h q then None else h q))"
proof (induction ps arbitrary: h ks h')
  case Nil
  then show ?case by simp
next
  case (Cons p ps)
  from Cons.prems obtain e where e: "h p = Some e"
    by (auto split: option.splits)
  show ?case
  proof (cases "is_alive e")
    case True
    with Cons.prems e obtain ks0
      where r: "erase_entities h ps = Inr (ks0, h')" and k: "ks = p # ks0"
      by (auto split: sum.splits)
    from Cons.IH[OF r] k e True show ?thesis
      by (auto simp: alive_in_def)
  next
    case False
    with Cons.prems e have r: "erase_entities (h(p := None)) ps = Inr (ks, h')"
      by simp
    have same: "alive_in (h(p := None)) = alive_in h"
      using e False by (auto simp: alive_in_def fun_eq_iff)
    from Cons.IH[OF r] e False show ?thesis
      unfolding same by (auto simp: alive_in_def)
  qed
qed

text \<open>What a call of refresh that returns has done to the state.\<close>

lemma refresh_result:
  assumes "refresh w m = Inr w'"
  shows "\<exists>mgr. managers w m = Some mgr \<and>
     w' = w\<lparr>entities := (\<lambda>q. if q \<in> set (m_entities mgr) \<and> \<not> alive_in (entities w) q
                               then None else entities w q),
            managers := (managers w)(m \<mapsto>
              \<lparr>m_entities = filter (alive_in (entities w)) (m_entities mgr),
               m_groupedEntities = (\<lambda>g. if g < max_groups
                  then filter (\<lambda>p. group_pred (entities w) g p = Inr False)
                         (m_groupedEntities mgr g)
                  else m_groupedEntities mgr g)\<rparr>)\<rparr>"
proof -
  from assms obtain mgr G ks h where mgr: "managers w m = Some mgr"
    and G: "refresh_groups (entities w) 0 (m_groupedEntities mgr) = Inr G"
    and E: "erase_entities (entities w) (m_entities mgr) = Inr (ks, h)"
    and w': "w' = w\<lparr>entities := h,
                    managers := (managers w)(m \<mapsto> \<lparr>m_entities = ks, m_groupedEntities = G\<rparr>)\<rparr>"
    by (auto simp: refresh_def split: option.splits sum.splits)
  have G': "G = (\<lambda>g. if g < max_groups
                  then filter (\<lambda>p. group_pred (entities w) g p = Inr False)
                         (m_groupedEntities mgr g)
                  else m_groupedEntities mgr g)"
    using refresh_groups_filter[OF G] by (simp add: fun_eq_iff)
  from erase_entities_filter[OF E]
  have ks: "ks = filter (alive_in (entities w)) (m_entities mgr)"
    and h: "h = (\<lambda>q. if q \<in> set (m_entities mgr) \<and> \<not> alive_in (entities w) q
                    then None else entities w q)"
    by (simp_all add: fun_eq_iff)
  show ?thesis using mgr w' G' ks h by simp
qed

lemma alive_in_iff: "alive_in (entities w) p \<longleftrightarrow> is_alive_at w p = Inr True"
  by (auto simp: alive_in_def is_alive_at_def split: option.splits)

lemma group_pred_iff:
  "group_pred (entities w) g p = Inr False \<longleftrightarrow>
     is_alive_at w p = Inr True \<and> has_group_at w p g = Inr True"
  by (auto simp: group_pred_False is_alive_at_def has_group_at_def split: option.splits)

lemma refresh_postcondition_aux:
  assumes "refresh w m = Inr w'"
  shows "\<exists>mgr'. managers w' m = Some mgr' \<and>
     (\<forall>p \<in> set (m_entities mgr'). alive_in (entities w') p) \<and>
     (\<forall>g<max_groups. \<forall>p \<in> set (m_groupedEntities mgr' g).
        group_pred (entities w') g p = Inr False)"
proof -
  from refresh_result[OF assms] obtain mgr where mgr: "managers w m = Some mgr"
    and w': "w' = w\<lparr>entities := (\<lambda>q. if q \<in> set (m_entities mgr) \<and> \<not> alive_in (entities w) q
                               then None else entities w q),
            managers := (managers w)(m \<mapsto>
              \<lparr>m_entities = filter (alive_in (entities w)) (m_entities mgr),
               m_groupedEntities = (\<lambda>g. if g < max_groups
                  then filter (\<lambda>p. group_pred (entities w) g p = Inr False)
                         (m_groupedEntities mgr g)
                  else m_groupedEntities mgr g)\<rparr>)\<rparr>"
    by blast
  have keep: "entities w' p = entities w p" if "alive_in (entities w) p" for p
    using that by (simp add: w')
  have a: "alive_in (entities w') p" if "alive_in (entities w) p" for p
    using that keep[OF that] by (simp add: alive_in_def)
  have g: "group_pred (entities w') g p = Inr False"
    if "group_pred (entities w) g p = Inr False" for p g
  proof -
    from that have "alive_in (entities w) p"
      by (auto simp: group_pred_False alive_in_def)
    from keep[OF this] that show ?thesis
      by (simp add: group_pred_def)
  qed
  show ?thesis
    using a g by (auto simp: w')
qed

subsection \<open>refresh returns on a well-formed state\<close>

lemma erase_group_total:
  "\<forall>p \<in> set ps. \<exists>b. group_pred h i p = Inr b \<Longrightarrow> \<exists>ks. erase_group h i ps = Inr ks"
  by (induction ps) (auto split: sum.splits)

lemma group_pred_total:
  "h p = Some e \<Longrightarrow> g < max_groups \<Longrightarrow> \<exists>b. group_pred h g p = Inr b"
  by (auto simp: group_pred_def has_group_def)

lemma refresh_groups_total:
  "\<forall>g<max_groups. set (G g) \<subseteq> dom h \<Longrightarrow> \<exists>G'. refresh_groups h i G = Inr G'"
proof (induction h i G rule: refresh_groups.induct)
  case (1 h i G)
  show ?case
  proof (cases "i < max_groups")
    case True
    with "1.prems" have "\<forall>p \<in> set (G i). \<exists>b. group_pred h i p = Inr b"
      by (auto intro: group_pred_total)
    from erase_group_total[OF this] obtain v where v: "erase_group h i (G i) = Inr v" by blast
    have sub: "set v \<subseteq> set (G i)"
      using erase_group_filter[OF v] by auto
    have "\<exists>G'. refresh_groups h (Suc i) (G(i := v)) = Inr G'"
      using "1.prems" sub True by (intro "1.IH"[OF True v]) auto
    with True v show ?thesis
      by (subst refresh_groups.simps) simp
  next
    case False
    then show ?thesis by (subst refresh_groups.simps) simp
  qed
qed

lemma erase_entities_total:
  "distinct ps \<Longrightarrow> set ps \<subseteq> dom h \<Longrightarrow> \<exists>ks h'. erase_entities h ps = Inr (ks, h')"
proof (induction ps arbitrary: h)
  case Nil
  then show ?case by simp
next
  case (Cons p ps)
  then obtain e where e: "h p = Some e" by auto
  show ?case
  proof (cases "is_alive e")
    case True
    from Cons.prems have "\<exists>ks h'. erase_entities h ps = Inr (ks, h')"
      by (intro Cons.IH) auto
    with e True show ?thesis by auto
  next
    case False
    from Cons.prems have "\<exists>ks h'. erase_entities (h(p := None)) ps = Inr (ks, h')"
      by (intro Cons.IH) auto
    with e False show ?thesis by auto
  qed
qed

text \<open>
  When the manager exists, owns each of its entities once, and every pointer it holds
  (owned, or in one of the 32 group vectors) refers to an entity of the store, refresh
  returns.
\<close>

lemma refresh_completes:
  assumes "managers w m = Some mgr"
    and "distinct (m_entities mgr)"
    and "set (m_entities mgr) \<subseteq> dom (entities w)"
    and "\<forall>g<max_groups. set (m_groupedEntities mgr g) \<subseteq> dom (entities w)"
  shows "\<exists>w'. refresh w m = Inr w'"
proof -
  from refresh_groups_total[OF assms(4)] obtain G
    where G: "refresh_groups (entities w) 0 (m_groupedEntities mgr) = Inr G" by blast
  from erase_entities_total[OF assms(2,3)] obtain ks h
    where E: "erase_entities (entities w) (m_entities mgr) = Inr (ks, h)" by blast
  show ?thesis by (simp add: refresh_def assms(1) G E)
qed

subsection \<open>refresh on the example state\<close>

lemma bit_8_word32: "bit (8 :: 32 word) n \<longleftrightarrow> n = 3"
proof -
  have "(8 :: 32 word) = push_bit 3 1" by simp
  then show ?thesis
    by (simp only: bit_push_bit_iff bit_1_iff) (auto simp: possible_bit_word)
qed

lemma managers_example_world:
  "managers example_world 0 =
     Some \<lparr>m_entities = [10, 11, 12],
           m_groupedEntities = (\<lambda>g. if g = 3 then [10, 11, 11, 12] else [])\<rparr>"
  by (simp add: example_world_def)

lemma refresh_example: "refresh example_world 0 = Inr refreshed_world"
proof -
  have "\<exists>w'. refresh example_world 0 = Inr w'"
    by (simp add: refresh_def example_world_def refresh_groups.simps max_groups_def
        group_pred_def is_alive_def has_group_def Entity_ctor_def bit_8_word32)
  then obtain w' where r: "refresh example_world 0 = Inr w'" by blast
  from refresh_result[OF r] managers_example_world
  have "w' = refreshed_world"
    by (auto simp: example_world_def refreshed_world_def fun_eq_iff alive_in_def is_alive_def
        Entity_ctor_def group_pred_def has_group_def max_groups_def bit_8_word32)
  with r show ?thesis by simp
qed

subsection \<open>Claims about refresh\<close>

text \<open>
  C1. Whenever \<^verbatim>\<open>refresh()\<close> of the manager \<open>m\<close> returns, the manager is still there,
  every entity left in its owned store \<open>m_entities\<close> answers \<^verbatim>\<open>is_alive()\<close> with true,
  and for each of the 32 group ids \<open>g\<close> every entry left in the list of group \<open>g\<close> refers
  to an entity that is alive and has bit \<open>g\<close> of its group bitset set. No entity that is
  not alive remains in either place. (By \<open>refresh_completes\<close> the call returns whenever
  the pointers the manager holds are valid.)
\<close>

theorem refresh_postcondition:
  assumes "refresh w m = Inr w'"
  shows "\<exists>mgr'. managers w' m = Some mgr' \<and>
     (\<forall>p \<in> set (m_entities mgr'). is_alive_at w' p = Inr True) \<and>
     (\<forall>g<max_groups. \<forall>p \<in> set (m_groupedEntities mgr' g).
        is_alive_at w' p = Inr True \<and> has_group_at w' p g = Inr True)"
  using refresh_postcondition_aux[OF assms]
  by (simp add: alive_in_iff group_pred_iff)

theorem refresh_postcondition_witness:
  "refresh example_world 0 = Inr refreshed_world \<and>
   (\<exists>mgr'. managers refreshed_world 0 = Some mgr' \<and>
     (\<forall>p \<in> set (m_entities mgr'). is_alive_at refreshed_world p = Inr True) \<and>
     (\<forall>g<max_groups. \<forall>p \<in> set (m_groupedEntities mgr' g).
        is_alive_at refreshed_world p = Inr True \<and> has_group_at refreshed_world p g = Inr True))"
proof -
  have h: "refresh example_world 0 = Inr refreshed_world"
    by (rule refresh_example)
  from h refresh_postcondition[OF h] show ?thesis by (rule conjI)
qed

text \<open>
  C10. \<^verbatim>\<open>refresh()\<close> is a stable filter. When it returns, the owned store is the old one
  restricted to the entities that were alive, and for each group id \<open>g\<close> below 32 the list
  of group \<open>g\<close> is the old list restricted to the entries whose entity was alive and had
  bit \<open>g\<close>. \<open>filter\<close> keeps the order of the entries it keeps and keeps every repetition
  of an entry: nothing is deduplicated.
\<close>

theorem refresh_stable_filter:
  assumes "refresh w m = Inr w'" and "managers w m = Some mgr"
  shows "\<exists>mgr'. managers w' m = Some mgr' \<and>
     m_entities mgr' = filter (\<lambda>p. is_alive_at w p = Inr True) (m_entities mgr) \<and>
     (\<forall>g<max_groups. m_groupedEntities mgr' g =
        filter (\<lambda>p. is_alive_at w p = Inr True \<and> has_group_at w p g = Inr True)
          (m_groupedEntities mgr g))"
  using refresh_result[OF assms(1)] assms(2)
  by (auto simp: alive_in_iff group_pred_iff cong: filter_cong)

theorem refresh_stable_filter_witness:
  "refresh example_world 0 = Inr refreshed_world \<and>
   managers example_world 0 =
     Some \<lparr>m_entities = [10, 11, 12],
           m_groupedEntities = (\<lambda>g. if g = 3 then [10, 11, 11, 12] else [])\<rparr> \<and>
   (\<exists>mgr'. managers refreshed_world 0 = Some mgr' \<and>
      m_entities mgr' = [11, 12] \<and> m_groupedEntities mgr' 3 = [11, 11])"
proof -
  have h: "refresh example_world 0 = Inr refreshed_world"
    by (rule refresh_example)
  from refresh_stable_filter[OF h managers_example_world]
  obtain mgr' where "managers refreshed_world 0 = Some mgr'"
    and "m_entities mgr' = filter (\<lambda>p. is_alive_at example_world p = Inr True) [10, 11, 12]"
    and "\<forall>g<max_groups. m_groupedEntities mgr' g =
        filter (\<lambda>p. is_alive_at example_world p = Inr True \<and>
                    has_group_at example_world p g = Inr True)
          (if g = 3 then [10, 11, 11, 12] else [])"
    by auto
  then have "managers refreshed_world 0 = Some mgr' \<and>
      m_entities mgr' = [11, 12] \<and> m_groupedEntities mgr' 3 = [11, 11]"
    by (simp add: max_groups_def is_alive_at_def has_group_at_def example_world_def
        is_alive_def has_group_def Entity_ctor_def bit_8_word32)
  with h managers_example_world show ?thesis by blast
qed

subsection \<open>refresh twice\<close>

lemma erase_group_id:
  "\<forall>p \<in> set ps. group_pred h i p = Inr False \<Longrightarrow> erase_group h i ps = Inr ps"
  by (induction ps) auto

lemma refresh_groups_id:
  "\<forall>g. i \<le> g \<and> g < max_groups \<longrightarrow> (\<forall>p \<in> set (G g). group_pred h g p = Inr False)
     \<Longrightarrow> refresh_groups h i G = Inr G"
proof (induction h i G rule: refresh_groups.induct)
  case (1 h i G)
  show ?case
  proof (cases "i < max_groups")
    case True
    with "1.prems" have v: "erase_group h i (G i) = Inr (G i)"
      by (intro erase_group_id) auto
    have "refresh_groups h (Suc i) (G(i := G i)) = Inr (G(i := G i))"
      using "1.prems" by (intro "1.IH"[OF True v]) auto
    with True v show ?thesis
      by (subst refresh_groups.simps) simp
  next
    case False
    then show ?thesis by (subst refresh_groups.simps) simp
  qed
qed

lemma erase_entities_id:
  "\<forall>p \<in> set ps. alive_in h p \<Longrightarrow> erase_entities h ps = Inr (ps, h)"
  by (induction ps) (auto simp: alive_in_def split: option.splits)

text \<open>A second refresh right after the first returns, and changes nothing at all.\<close>

lemma refresh_idem:
  assumes "refresh w m = Inr w'"
  shows "refresh w' m = Inr w'"
proof -
  from refresh_postcondition_aux[OF assms] obtain mgr' where mgr': "managers w' m = Some mgr'"
    and a: "\<forall>p \<in> set (m_entities mgr'). alive_in (entities w') p"
    and g: "\<forall>g<max_groups. \<forall>p \<in> set (m_groupedEntities mgr' g).
               group_pred (entities w') g p = Inr False"
    by blast
  have G: "refresh_groups (entities w') 0 (m_groupedEntities mgr') = Inr (m_groupedEntities mgr')"
    using g by (intro refresh_groups_id) auto
  have E: "erase_entities (entities w') (m_entities mgr') = Inr (m_entities mgr', entities w')"
    using a by (intro erase_entities_id) auto
  have same: "(managers w')(m \<mapsto>
      \<lparr>m_entities = m_entities mgr', m_groupedEntities = m_groupedEntities mgr'\<rparr>) = managers w'"
    using mgr' by (simp add: fun_upd_idem)
  show ?thesis
    by (simp add: refresh_def mgr' G E same)
qed

text \<open>
  C7. When \<^verbatim>\<open>refresh()\<close> has returned, a second \<^verbatim>\<open>refresh()\<close> with nothing done in
  between returns as well, and it leaves the entities in the store, the size of the owned
  entity store and the size of each of the 32 group lists as the first call left them.
\<close>

theorem refresh_idempotent_sizes:
  assumes "refresh w m = Inr w'"
  shows "\<exists>w'' mgr' mgr''. refresh w' m = Inr w'' \<and>
     managers w' m = Some mgr' \<and> managers w'' m = Some mgr'' \<and>
     entities w'' = entities w' \<and>
     length (m_entities mgr'') = length (m_entities mgr') \<and>
     (\<forall>g<max_groups. length (m_groupedEntities mgr'' g) = length (m_groupedEntities mgr' g))"
proof -
  from refresh_postcondition_aux[OF assms] obtain mgr' where "managers w' m = Some mgr'"
    by blast
  with refresh_idem[OF assms] show ?thesis by auto
qed

theorem refresh_idempotent_sizes_witness:
  "refresh example_world 0 = Inr refreshed_world \<and>
   (\<exists>w'' mgr' mgr''. refresh refreshed_world 0 = Inr w'' \<and>
     managers refreshed_world 0 = Some mgr' \<and> managers w'' 0 = Some mgr'' \<and>
     entities w'' = entities refreshed_world \<and>
     length (m_entities mgr'') = length (m_entities mgr') \<and>
     (\<forall>g<max_groups. length (m_groupedEntities mgr'' g) = length (m_groupedEntities mgr' g)))"
proof -
  have h: "refresh example_world 0 = Inr refreshed_world"
    by (rule refresh_example)
  from h refresh_idempotent_sizes[OF h] show ?thesis by (rule conjI)
qed

subsection \<open>Groups and destroy\<close>

lemma bit_set_bit_word32:
  "bit (set_bit g (x :: 32 word)) n \<longleftrightarrow> bit x n \<or> (n = g \<and> g < 32)"
  by (auto simp: bit_set_bit_iff possible_bit_word)

lemma set_bit_twice: "set_bit g (set_bit g (x :: 32 word)) = set_bit g x"
  by (rule bit_eqI) (auto simp: bit_set_bit_iff)

lemma bit_unset_bit_word32:
  "bit (unset_bit g (x :: 32 word)) n \<longleftrightarrow> bit x n \<and> n \<noteq> g"
  by (auto simp: bit_unset_bit_iff)

text \<open>
  C5. \<^verbatim>\<open>destroy()\<close> on an entity makes \<^verbatim>\<open>is_alive()\<close> false at once, and a second
  \<^verbatim>\<open>destroy()\<close> leaves the state as the first left it. It changes nothing but the alive
  flag of that entity: the component list, the component array and bitset, the group
  bitset, every other entity and every manager are as before, so every group list of every
  manager still holds the entries it held.
\<close>

theorem destroy_frame:
  assumes "entities w p = Some e"
  shows "\<exists>w1. destroy_at w p = Inr w1 \<and>
     is_alive_at w1 p = Inr False \<and>
     destroy_at w1 p = Inr w1 \<and>
     w1 = w\<lparr>entities := (entities w)(p \<mapsto> e\<lparr>m_alive := False\<rparr>)\<rparr> \<and>
     managers w1 = managers w \<and>
     (\<forall>m g. get_entities_by_group w1 m g = get_entities_by_group w m g)"
  using assms
  by (simp add: destroy_at_def destroy_def is_alive_at_def is_alive_def get_entities_by_group_def)

text \<open>
  C4. For an entity \<open>p\<close> whose manager exists and a group id \<open>g\<close> below 32,
  \<^verbatim>\<open>add_group(g)\<close> returns; right after it \<^verbatim>\<open>has_group(g)\<close> is true and the list of group
  \<open>g\<close> of the manager is the old one with \<open>p\<close> appended, no refresh being needed. A second
  \<^verbatim>\<open>add_group(g)\<close> leaves the entities as they are (the bit stays set) and appends \<open>p\<close> once
  more: the list ends with two entries for \<open>p\<close>.
\<close>

theorem add_group_twice:
  assumes "entities w p = Some e" and "managers w (m_manager e) = Some mgr"
    and "g < max_groups"
  shows "\<exists>w1 w2. add_group w p g = Inr w1 \<and>
     has_group_at w1 p g = Inr True \<and>
     get_entities_by_group w1 (m_manager e) g = Inr (m_groupedEntities mgr g @ [p]) \<and>
     add_group w1 p g = Inr w2 \<and>
     has_group_at w2 p g = Inr True \<and>
     entities w2 = entities w1 \<and>
     get_entities_by_group w2 (m_manager e) g = Inr (m_groupedEntities mgr g @ [p, p])"
  using assms
  by (simp add: add_group_def add_to_group_def has_group_at_def has_group_def
      get_entities_by_group_def bit_set_bit_word32 set_bit_twice max_groups_def)

text \<open>
  C6. For a group id \<open>g\<close> below 32, \<^verbatim>\<open>remove_group(g)\<close> on an entity changes bit \<open>g\<close> of
  its group bitset to false and nothing else: the other bits, the other fields, the other
  entities and the managers with their group lists stay. Whatever manager runs
  \<^verbatim>\<open>refresh()\<close> next, its list of group \<open>g\<close> holds no entry for the entity afterwards,
  whether the entity is alive or not.
\<close>

theorem remove_group_deferred:
  assumes "entities w p = Some e" and "g < max_groups"
  shows "\<exists>w1. remove_group_at w p g = Inr w1 \<and>
     w1 = w\<lparr>entities := (entities w)(p \<mapsto>
             e\<lparr>m_group_bitset := unset_bit g (m_group_bitset e)\<rparr>)\<rparr> \<and>
     (\<forall>n. bit (unset_bit g (m_group_bitset e)) n \<longleftrightarrow> bit (m_group_bitset e) n \<and> n \<noteq> g) \<and>
     managers w1 = managers w \<and>
     has_group_at w1 p g = Inr False \<and>
     (\<forall>m w2 mgr2. refresh w1 m = Inr w2 \<longrightarrow> managers w2 m = Some mgr2 \<longrightarrow>
        p \<notin> set (m_groupedEntities mgr2 g))"
proof -
  define w1 where "w1 = w\<lparr>entities := (entities w)(p \<mapsto>
             e\<lparr>m_group_bitset := unset_bit g (m_group_bitset e)\<rparr>)\<rparr>"
  have r: "remove_group_at w p g = Inr w1"
    using assms by (simp add: remove_group_at_def remove_group_def w1_def)
  have hg: "has_group_at w1 p g = Inr False"
    using assms by (simp add: has_group_at_def has_group_def w1_def bit_unset_bit_word32)
  have "p \<notin> set (m_groupedEntities mgr2 g)"
    if "refresh w1 m = Inr w2" and "managers w2 m = Some mgr2" for m w2 mgr2
  proof -
    from refresh_result[OF that(1)] that(2) assms(2)
    have "m_groupedEntities mgr2 g =
        filter (\<lambda>q. group_pred (entities w1) g q = Inr False)
          (m_groupedEntities (the (managers w1 m)) g)"
      by auto
    moreover have "group_pred (entities w1) g p \<noteq> Inr False"
      using hg by (simp add: group_pred_iff)
    ultimately show ?thesis by auto
  qed
  with r hg show ?thesis
    by (simp add: w1_def bit_unset_bit_word32)
qed


lemma entities_example_world_11:
  "entities example_world 11 = Some ((Entity_ctor 0)\<lparr>m_group_bitset := 8\<rparr>)"
  by (simp add: example_world_def)

lemma entities_example_world_12: "entities example_world 12 = Some (Entity_ctor 0)"
  by (simp add: example_world_def)

theorem destroy_frame_witness:
  "entities example_world 11 = Some ((Entity_ctor 0)\<lparr>m_group_bitset := 8\<rparr>) \<and>
   is_alive_at example_world 11 = Inr True \<and>
   (\<exists>w1. destroy_at example_world 11 = Inr w1 \<and>
      is_alive_at w1 11 = Inr False \<and>
      destroy_at w1 11 = Inr w1 \<and>
      get_entities_by_group w1 0 3 = Inr [10, 11, 11, 12])"
proof -
  have h: "entities example_world 11 = Some ((Entity_ctor 0)\<lparr>m_group_bitset := 8\<rparr>)"
    by (rule entities_example_world_11)
  have a: "is_alive_at example_world 11 = Inr True"
    by (simp add: is_alive_at_def h is_alive_def Entity_ctor_def)
  have g: "get_entities_by_group example_world 0 3 = Inr [10, 11, 11, 12]"
    by (simp add: get_entities_by_group_def managers_example_world max_groups_def)
  from destroy_frame[OF h] g have "\<exists>w1. destroy_at example_world 11 = Inr w1 \<and>
      is_alive_at w1 11 = Inr False \<and>
      destroy_at w1 11 = Inr w1 \<and>
      get_entities_by_group w1 0 3 = Inr [10, 11, 11, 12]"
    by metis
  with h a show ?thesis by blast
qed

theorem add_group_twice_witness:
  "entities example_world 12 = Some (Entity_ctor 0) \<and>
   managers example_world (m_manager (Entity_ctor 0)) =
     Some \<lparr>m_entities = [10, 11, 12],
           m_groupedEntities = (\<lambda>g. if g = 3 then [10, 11, 11, 12] else [])\<rparr> \<and>
   (3 :: nat) < max_groups \<and>
   (\<exists>w1 w2. add_group example_world 12 3 = Inr w1 \<and>
     has_group_at w1 12 3 = Inr True \<and>
     get_entities_by_group w1 0 3 = Inr [10, 11, 11, 12, 12] \<and>
     add_group w1 12 3 = Inr w2 \<and>
     has_group_at w2 12 3 = Inr True \<and>
     entities w2 = entities w1 \<and>
     get_entities_by_group w2 0 3 = Inr [10, 11, 11, 12, 12, 12])"
proof -
  have h: "entities example_world 12 = Some (Entity_ctor 0)"
    by (rule entities_example_world_12)
  have m: "managers example_world (m_manager (Entity_ctor 0)) =
     Some \<lparr>m_entities = [10, 11, 12],
           m_groupedEntities = (\<lambda>g. if g = 3 then [10, 11, 11, 12] else [])\<rparr>"
    by (simp add: Entity_ctor_def managers_example_world)
  have g: "(3 :: nat) < max_groups"
    by (simp add: max_groups_def)
  from add_group_twice[OF h m g] have "\<exists>w1 w2. add_group example_world 12 3 = Inr w1 \<and>
     has_group_at w1 12 3 = Inr True \<and>
     get_entities_by_group w1 0 3 = Inr [10, 11, 11, 12, 12] \<and>
     add_group w1 12 3 = Inr w2 \<and>
     has_group_at w2 12 3 = Inr True \<and>
     entities w2 = entities w1 \<and>
     get_entities_by_group w2 0 3 = Inr [10, 11, 11, 12, 12, 12]"
    by (simp add: Entity_ctor_def)
  with h m g show ?thesis by blast
qed

theorem remove_group_deferred_witness:
  "entities example_world 11 = Some ((Entity_ctor 0)\<lparr>m_group_bitset := 8\<rparr>) \<and>
   (3 :: nat) < max_groups \<and>
   has_group_at example_world 11 3 = Inr True \<and>
   (\<exists>w1 w2 mgr2. remove_group_at example_world 11 3 = Inr w1 \<and>
      has_group_at w1 11 3 = Inr False \<and>
      get_entities_by_group w1 0 3 = Inr [10, 11, 11, 12] \<and>
      refresh w1 0 = Inr w2 \<and> managers w2 0 = Some mgr2 \<and>
      is_alive_at w2 11 = Inr True \<and>
      11 \<notin> set (m_groupedEntities mgr2 3))"
proof -
  have h: "entities example_world 11 = Some ((Entity_ctor 0)\<lparr>m_group_bitset := 8\<rparr>)"
    by (rule entities_example_world_11)
  have g: "(3 :: nat) < max_groups"
    by (simp add: max_groups_def)
  have b: "has_group_at example_world 11 3 = Inr True"
    by (simp add: has_group_at_def h has_group_def max_groups_def Entity_ctor_def bit_8_word32)
  from remove_group_deferred[OF h g] obtain w1
    where r: "remove_group_at example_world 11 3 = Inr w1"
      and w1: "w1 = example_world\<lparr>entities := (entities example_world)(11 \<mapsto>
             ((Entity_ctor 0)\<lparr>m_group_bitset := 8\<rparr>)
               \<lparr>m_group_bitset := unset_bit 3 (m_group_bitset ((Entity_ctor 0)\<lparr>m_group_bitset := 8\<rparr>))\<rparr>)\<rparr>"
      and hg: "has_group_at w1 11 3 = Inr False"
      and later: "\<forall>m w2 mgr2. refresh w1 m = Inr w2 \<longrightarrow> managers w2 m = Some mgr2 \<longrightarrow>
        11 \<notin> set (m_groupedEntities mgr2 3)"
    by blast
  have l: "get_entities_by_group w1 0 3 = Inr [10, 11, 11, 12]"
    by (simp add: w1 get_entities_by_group_def managers_example_world max_groups_def)
  have "\<exists>w2. refresh w1 0 = Inr w2"
    by (simp add: w1 refresh_def example_world_def refresh_groups.simps max_groups_def
        group_pred_def is_alive_def has_group_def Entity_ctor_def bit_8_word32
        bit_unset_bit_iff)
  then obtain w2 where w2: "refresh w1 0 = Inr w2" by blast
  from refresh_result[OF w2] obtain mgr2 where mgr2: "managers w2 0 = Some mgr2"
    and a: "is_alive_at w2 11 = Inr True"
    by (auto simp: w1 example_world_def is_alive_at_def alive_in_def is_alive_def Entity_ctor_def)
  from later w2 mgr2 have "11 \<notin> set (m_groupedEntities mgr2 3)" by blast
  with h g b r hg l w2 mgr2 a show ?thesis by blast
qed

subsection \<open>The type registry\<close>

lemma first_index_append:
  "first_index (xs @ ys) x = (if x \<in> set xs then first_index xs x else length xs + first_index ys x)"
  by (induction xs) auto

lemma get_component_type_id_registry_of:
  "get_component_type_id T (registry_of seen) =
     (word_of_nat (first_index (first_uses seen [T]) T), registry_of (first_uses seen [T]))"
  by (auto simp: get_component_type_id_def get_unique_component_id_def registry_of_def
      first_index_append fun_eq_iff)

lemma first_uses_prefix: "\<exists>zs. first_uses seen xs = seen @ zs"
  by (induction xs arbitrary: seen) (auto, metis append.assoc)

lemma first_index_first_uses:
  "T \<in> set seen \<Longrightarrow> first_index (first_uses seen xs) T = first_index seen T"
proof -
  assume "T \<in> set seen"
  moreover obtain zs where "first_uses seen xs = seen @ zs"
    using first_uses_prefix by blast
  ultimately show ?thesis by (simp add: first_index_append)
qed

lemma type_id_calls_registry_of:
  "type_id_calls Ts (registry_of seen) =
     (map (\<lambda>T. word_of_nat (first_index (first_uses seen Ts) T)) Ts,
      registry_of (first_uses seen Ts))"
proof (induction Ts arbitrary: seen)
  case Nil
  then show ?case by simp
next
  case (Cons T Ts)
  let ?s = "first_uses seen [T]"
  have T: "T \<in> set ?s" by simp
  have "first_uses seen (T # Ts) = first_uses ?s Ts" by simp
  with Cons.IH[of ?s] first_index_first_uses[OF T, of Ts] show ?case
    by (simp add: get_component_type_id_registry_of del: first_uses.simps)
qed

lemma initial_registry_of: "initial_registry = registry_of []"
  by (simp add: initial_registry_def registry_of_def)

text \<open>
  C2, as amended. Starting from the initial registry, however many calls
  \<^verbatim>\<open>get_component_type_id<T>()\<close> are made and for whatever types, each call returns the
  number of distinct types that were first used before the first use of \<open>T\<close>, as a 64-bit
  value: the ids are 0, 1, 2, ... in the order of first use, one per distinct type, and a
  repeated call returns the id of the first call. There is no capacity check: the 33rd
  distinct type is registered like the others and gets the id 32.
\<close>

theorem type_ids_in_order_of_first_use:
  "type_id_calls Ts initial_registry =
     (map (\<lambda>T. word_of_nat (first_index (first_uses [] Ts) T)) Ts,
      registry_of (first_uses [] Ts))"
  by (simp add: initial_registry_of type_id_calls_registry_of)

theorem type_ids_in_order_of_first_use_witness:
  "fst (type_id_calls [5, 7, 5, 9] initial_registry) = [0, 1, 0, 2]"
  using type_ids_in_order_of_first_use[of "[5, 7, 5, 9]"] by simp

lemma first_uses_distinct: "distinct (seen @ Ts) \<Longrightarrow> first_uses seen Ts = seen @ Ts"
  by (induction Ts arbitrary: seen) auto

lemma first_index_nth: "distinct xs \<Longrightarrow> i < length xs \<Longrightarrow> first_index xs (xs ! i) = i"
  by (induction xs arbitrary: i) (auto simp: nth_Cons split: nat.splits)

lemma type_id_calls_distinct:
  assumes "distinct Ts"
  shows "fst (type_id_calls Ts initial_registry) = map word_of_nat [0..<length Ts]"
proof -
  have "first_uses [] Ts = Ts"
    using first_uses_distinct[of "[]" Ts] assms by simp
  then have "fst (type_id_calls Ts initial_registry) =
      map (\<lambda>T. word_of_nat (first_index Ts T)) Ts"
    by (simp add: initial_registry_of type_id_calls_registry_of)
  also have "\<dots> = map word_of_nat [0..<length Ts]"
    by (rule nth_equalityI) (simp_all add: first_index_nth assms)
  finally show ?thesis .
qed

text \<open>
  C2 as stated fails: when 33 distinct types are registered, the 33rd call returns the id
  32 as an ordinary result, and 32 is not a position of the 32-wide bitset and array.
\<close>

theorem registry_capacity_counterexample:
  "fst (type_id_calls [0..<33] initial_registry) ! 32 = 32 \<and>
   \<not> unat (32 :: ComponentID) < max_components"
proof -
  have "fst (type_id_calls [0..<33] initial_registry) = map word_of_nat [0..<length [0..<33]]"
    by (rule type_id_calls_distinct) simp
  then show ?thesis
    by (simp add: max_components_def)
qed

subsection \<open>Group ids out of range\<close>

text \<open>
  C3, as amended. On an entity and a manager that exist, the five operations that take a
  group id return normally when the id is below 32. For an id of 32 or more none of them
  checks the id: each one applies \<^verbatim>\<open>operator[]\<close> of the 32-wide bitset or of the array
  of 32 vectors at that position, an access out of range that nothing detects.
\<close>

theorem group_id_not_checked:
  assumes "entities w p = Some e" and "managers w (m_manager e) = Some mgr0"
    and "managers w m = Some mgr"
  shows "(g < max_groups \<longrightarrow>
            (\<exists>w'. add_group w p g = Inr w') \<and>
            (\<exists>w'. remove_group_at w p g = Inr w') \<and>
            has_group_at w p g = Inr (bit (m_group_bitset e) g) \<and>
            (\<exists>w'. add_to_group w m p g = Inr w') \<and>
            get_entities_by_group w m g = Inr (m_groupedEntities mgr g)) \<and>
         (max_groups \<le> g \<longrightarrow>
            add_group w p g = Inl OutOfRange \<and>
            remove_group_at w p g = Inl OutOfRange \<and>
            has_group_at w p g = Inl OutOfRange \<and>
            add_to_group w m p g = Inl OutOfRange \<and>
            get_entities_by_group w m g = Inl OutOfRange \<and>
            \<not> detected OutOfRange)"
  using assms
  by (simp add: add_group_def remove_group_at_def remove_group_def has_group_at_def
      has_group_def add_to_group_def get_entities_by_group_def)

text \<open>
  C3 as stated fails: at the group id 32 each of the five operations runs into the
  unchecked access out of range, which is not a detected failure.
\<close>

theorem group_id_detected_counterexample:
  "add_group example_world 11 32 = Inl OutOfRange \<and>
   remove_group_at example_world 11 32 = Inl OutOfRange \<and>
   has_group_at example_world 11 32 = Inl OutOfRange \<and>
   add_to_group example_world 0 11 32 = Inl OutOfRange \<and>
   get_entities_by_group example_world 0 32 = Inl OutOfRange \<and>
   \<not> detected OutOfRange"
  by (simp add: add_group_def remove_group_at_def remove_group_def has_group_at_def
      has_group_def add_to_group_def get_entities_by_group_def example_world_def
      max_groups_def)

theorem group_id_not_checked_witness:
  "entities example_world 11 = Some ((Entity_ctor 0)\<lparr>m_group_bitset := 8\<rparr>) \<and>
   managers example_world 0 =
     Some \<lparr>m_entities = [10, 11, 12],
           m_groupedEntities = (\<lambda>g. if g = 3 then [10, 11, 11, 12] else [])\<rparr> \<and>
   (3 :: nat) < max_groups \<and> max_groups \<le> (40 :: nat) \<and>
   has_group_at example_world 11 3 = Inr True \<and>
   get_entities_by_group example_world 0 3 = Inr [10, 11, 11, 12] \<and>
   has_group_at example_world 11 40 = Inl OutOfRange \<and>
   add_group example_world 11 40 = Inl OutOfRange"
proof -
  have h: "entities example_world 11 = Some ((Entity_ctor 0)\<lparr>m_group_bitset := 8\<rparr>)"
    by (rule entities_example_world_11)
  have m0: "managers example_world (m_manager ((Entity_ctor 0)\<lparr>m_group_bitset := 8\<rparr>)) =
     Some \<lparr>m_entities = [10, 11, 12],
           m_groupedEntities = (\<lambda>g. if g = 3 then [10, 11, 11, 12] else [])\<rparr>"
    by (simp add: Entity_ctor_def managers_example_world)
  have g: "(3 :: nat) < max_groups" "max_groups \<le> (40 :: nat)"
    by (simp_all add: max_groups_def)
  from group_id_not_checked[OF h m0 managers_example_world, of 3] g(1)
  have a: "has_group_at example_world 11 3 = Inr True"
    "get_entities_by_group example_world 0 3 = Inr [10, 11, 11, 12]"
    by (simp_all add: bit_8_word32)
  from group_id_not_checked[OF h m0 managers_example_world, of 40] g(2)
  have b: "has_group_at example_world 11 40 = Inl OutOfRange"
    "add_group example_world 11 40 = Inl OutOfRange"
    by simp_all
  from h managers_example_world g a b show ?thesis by simp
qed

subsection \<open>update and draw\<close>

lemma update_components_trace:
  "update_components w cs dt = w\<lparr>trace := trace w @ map (\<lambda>c. ComponentUpdate (fst c) dt) cs\<rparr>"
  by (induction cs arbitrary: w) (simp_all add: Component_update_def)

lemma draw_components_trace:
  "draw_components w cs = w\<lparr>trace := trace w @ map (\<lambda>c. ComponentDraw (fst c)) cs\<rparr>"
  by (induction cs arbitrary: w) (simp_all add: Component_draw_def)

lemma Entity_update_trace:
  "entities w p = Some e \<Longrightarrow>
     Entity_update w p dt = Inr (w\<lparr>trace := trace w @ update_calls w dt p\<rparr>)"
  by (simp add: Entity_update_def update_components_trace update_calls_def)

lemma Entity_draw_trace:
  "entities w p = Some e \<Longrightarrow> Entity_draw w p = Inr (w\<lparr>trace := trace w @ draw_calls w p\<rparr>)"
  by (simp add: Entity_draw_def draw_components_trace draw_calls_def)

lemma update_calls_trace_upd [simp]: "update_calls (w\<lparr>trace := t\<rparr>) = update_calls w"
  by (simp add: update_calls_def fun_eq_iff)

lemma draw_calls_trace_upd [simp]: "draw_calls (w\<lparr>trace := t\<rparr>) = draw_calls w"
  by (simp add: draw_calls_def fun_eq_iff)

lemma update_entities_trace:
  "set ps \<subseteq> dom (entities w) \<Longrightarrow>
     update_entities w ps dt = Inr (w\<lparr>trace := trace w @ concat (map (update_calls w dt) ps)\<rparr>)"
proof (induction ps arbitrary: w)
  case Nil
  then show ?case by simp
next
  case (Cons p ps)
  then obtain e where e: "entities w p = Some e" by auto
  let ?w = "w\<lparr>trace := trace w @ update_calls w dt p\<rparr>"
  from Cons.prems have "set ps \<subseteq> dom (entities ?w)" by simp
  from Cons.IH[OF this] Entity_update_trace[OF e, of dt] show ?case by simp
qed

lemma draw_entities_trace:
  "set ps \<subseteq> dom (entities w) \<Longrightarrow>
     draw_entities w ps = Inr (w\<lparr>trace := trace w @ concat (map (draw_calls w) ps)\<rparr>)"
proof (induction ps arbitrary: w)
  case Nil
  then show ?case by simp
next
  case (Cons p ps)
  then obtain e where e: "entities w p = Some e" by auto
  let ?w = "w\<lparr>trace := trace w @ draw_calls w p\<rparr>"
  from Cons.prems have "set ps \<subseteq> dom (entities ?w)" by simp
  from Cons.IH[OF this] Entity_draw_trace[OF e] show ?case by simp
qed

text \<open>
  C8. When the manager exists and every entity it owns is in the store,
  \<^verbatim>\<open>EntityManager::update(dt)\<close> returns, changes nothing but the trace of calls, and
  appends to it, for each entity of \<open>m_entities\<close> from the front (alive or not), the call
  of \<^verbatim>\<open>update(dt)\<close> on the entity followed by the calls of \<^verbatim>\<open>update(dt)\<close> on its
  components in the order of \<open>m_components\<close>, the order in which they were attached.
  \<^verbatim>\<open>EntityManager::draw()\<close> does the same with \<^verbatim>\<open>draw()\<close>.
\<close>

theorem update_draw_dispatch:
  assumes "managers w m = Some mgr" and "set (m_entities mgr) \<subseteq> dom (entities w)"
  shows "EntityManager_update w m dt =
           Inr (w\<lparr>trace := trace w @ concat (map (update_calls w dt) (m_entities mgr))\<rparr>) \<and>
         EntityManager_draw w m =
           Inr (w\<lparr>trace := trace w @ concat (map (draw_calls w) (m_entities mgr))\<rparr>)"
  using assms
  by (simp add: EntityManager_update_def EntityManager_draw_def update_entities_trace
      draw_entities_trace)

theorem update_draw_dispatch_witness:
  "managers dispatch_world 0 = Some \<lparr>m_entities = [10, 11], m_groupedEntities = (\<lambda>g. [])\<rparr> \<and>
   set [10, 11] \<subseteq> dom (entities dispatch_world) \<and>
   is_alive_at dispatch_world 10 = Inr False \<and>
   EntityManager_update dispatch_world 0 7 =
     Inr (dispatch_world\<lparr>trace :=
       [EntityUpdate 10 7, ComponentUpdate 20 7, ComponentUpdate 21 7,
        EntityUpdate 11 7, ComponentUpdate 22 7]\<rparr>) \<and>
   EntityManager_draw dispatch_world 0 =
     Inr (dispatch_world\<lparr>trace :=
       [EntityDraw 10, ComponentDraw 20, ComponentDraw 21, EntityDraw 11, ComponentDraw 22]\<rparr>)"
proof -
  have m: "managers dispatch_world 0 =
      Some \<lparr>m_entities = [10, 11], m_groupedEntities = (\<lambda>g. [])\<rparr>"
    by (simp add: dispatch_world_def)
  have d: "set (m_entities \<lparr>m_entities = [10, 11], m_groupedEntities = (\<lambda>g. [])\<rparr>)
      \<subseteq> dom (entities dispatch_world)"
    by (simp add: dispatch_world_def)
  have a: "is_alive_at dispatch_world 10 = Inr False"
    by (simp add: is_alive_at_def dispatch_world_def is_alive_def)
  have u: "concat (map (update_calls dispatch_world 7) [10, 11]) =
       [EntityUpdate 10 7, ComponentUpdate 20 7, ComponentUpdate 21 7,
        EntityUpdate 11 7, ComponentUpdate 22 7]"
    by (simp add: update_calls_def dispatch_world_def)
  have r: "concat (map (draw_calls dispatch_world) [10, 11]) =
       [EntityDraw 10, ComponentDraw 20, ComponentDraw 21, EntityDraw 11, ComponentDraw 22]"
    by (simp add: draw_calls_def dispatch_world_def)
  have t: "trace dispatch_world = []"
    by (simp add: dispatch_world_def)
  from update_draw_dispatch[OF m d, of 7] u r t m d a show ?thesis
    by simp
qed

subsection \<open>Components\<close>

lemma type_id_known: "type_id r T = Some i \<Longrightarrow> get_component_type_id T r = (i, r)"
  by (simp add: get_component_type_id_def)

lemma type_id_registered: "get_component_type_id T r = (i, r') \<Longrightarrow> type_id r' T = Some i"
  by (auto simp: get_component_type_id_def get_unique_component_id_def split: option.splits)

lemma type_id_kept:
  "get_component_type_id U r = (j, r') \<Longrightarrow> type_id r T = Some i \<Longrightarrow> type_id r' T = Some i"
  by (auto simp: get_component_type_id_def get_unique_component_id_def split: option.splits)

lemma has_component_result:
  assumes "has_component w p T = Inr (b, w1)"
  shows "\<exists>e i r. entities w p = Some e \<and> get_component_type_id T (registry w) = (i, r) \<and>
           unat i < max_components \<and> b = bit (m_component_bitset e) (unat i) \<and>
           w1 = w\<lparr>registry := r\<rparr>"
  using assms
  by (auto simp: has_component_def split: option.splits prod.splits if_splits)

lemma add_component_result:
  assumes "add_component off w p T = Inr (c, w1)"
  shows "\<exists>e i r. entities w p = Some e \<and> get_component_type_id T (registry w) = (i, r) \<and>
           unat i < max_components \<and> \<not> bit (m_component_bitset e) (unat i) \<and>
           c = next_addr w \<and>
           w1 = w\<lparr>registry := r,
                  entities := (entities w)(p \<mapsto>
                    e\<lparr>m_components := m_components e @
                        [(to_Component off T c, \<lparr>entity = Some p, dyn_type = T\<rparr>)],
                      m_component_array :=
                        (m_component_array e)(unat i := Some (to_Component off T c)),
                      m_component_bitset := set_bit (unat i) (m_component_bitset e)\<rparr>),
                  next_addr := Suc (to_Component off T c)\<rparr>"
proof -
  from assms obtain b w0 where h: "has_component w p T = Inr (b, w0)"
    by (auto simp: add_component_def split: sum.splits)
  from has_component_result[OF h] obtain e i r where e: "entities w p = Some e"
    and i: "get_component_type_id T (registry w) = (i, r)" "unat i < max_components"
    and b: "b = bit (m_component_bitset e) (unat i)" and w0: "w0 = w\<lparr>registry := r\<rparr>"
    by blast
  have again: "get_component_type_id T r = (i, r)"
    using type_id_registered[OF i(1)] by (rule type_id_known)
  from assms h have nb: "\<not> b"
    by (auto simp: add_component_def split: if_splits)
  from assms show ?thesis
    using e i nb b again
    by (auto simp: add_component_def h w0 Let_def)
qed


lemma slot_calls:
  assumes "slot w p T c"
  shows "has_component w p T = Inr (True, w)"
    and "get_component w p T = Inr (c, w)"
    and "add_component off w p T = Inl AssertFailed"
proof -
  from assms obtain e i where e: "entities w p = Some e"
    and i: "type_id (registry w) T = Some i" "unat i < max_components"
    and b: "bit (m_component_bitset e) (unat i)" "m_component_array e (unat i) = Some c"
    by (auto simp: slot_def)
  show h: "has_component w p T = Inr (True, w)"
    by (simp add: has_component_def e type_id_known[OF i(1)] i(2) b(1))
  show "get_component w p T = Inr (c, w)"
    by (simp add: get_component_def h e type_id_known[OF i(1)] i(2) b(2) reinterpret_cast_def)
  show "add_component off w p T = Inl AssertFailed"
    by (simp add: add_component_def h)
qed

lemma add_component_slot:
  assumes "add_component off w p T = Inr (c, w1)"
  shows "slot w1 p T (to_Component off T c)"
    and "instances_of w1 p T =
           instances_of w p T @ [(to_Component off T c, \<lparr>entity = Some p, dyn_type = T\<rparr>)]"
proof -
  from add_component_result[OF assms] obtain e i r where e: "entities w p = Some e"
    and i: "get_component_type_id T (registry w) = (i, r)" "unat i < max_components"
    and w1: "w1 = w\<lparr>registry := r,
                  entities := (entities w)(p \<mapsto>
                    e\<lparr>m_components := m_components e @
                        [(to_Component off T c, \<lparr>entity = Some p, dyn_type = T\<rparr>)],
                      m_component_array :=
                        (m_component_array e)(unat i := Some (to_Component off T c)),
                      m_component_bitset := set_bit (unat i) (m_component_bitset e)\<rparr>),
                  next_addr := Suc (to_Component off T c)\<rparr>"
    by blast
  from i(2) have "possible_bit TYPE(32 word) (unat i)"
    by (simp add: max_components_def)
  then show "slot w1 p T (to_Component off T c)"
    using type_id_registered[OF i(1)] i(2)
    by (simp add: slot_def w1 bit_set_bit_iff)
  show "instances_of w1 p T =
          instances_of w p T @ [(to_Component off T c, \<lparr>entity = Some p, dyn_type = T\<rparr>)]"
    by (simp add: instances_of_def w1 e)
qed

lemma update_components_frame:
  "entities (update_components w cs dt) = entities w \<and>
   registry (update_components w cs dt) = registry w \<and>
   next_addr (update_components w cs dt) = next_addr w"
  by (induction cs arbitrary: w) (simp_all add: Component_update_def)

lemma draw_components_frame:
  "entities (draw_components w cs) = entities w \<and>
   registry (draw_components w cs) = registry w \<and>
   next_addr (draw_components w cs) = next_addr w"
  by (induction cs arbitrary: w) (simp_all add: Component_draw_def)

lemma Entity_update_frame:
  "Entity_update w q dt = Inr w' \<Longrightarrow>
     entities w' = entities w \<and> registry w' = registry w \<and> next_addr w' = next_addr w"
  by (auto simp: Entity_update_def update_components_frame split: option.splits)

lemma Entity_draw_frame:
  "Entity_draw w q = Inr w' \<Longrightarrow>
     entities w' = entities w \<and> registry w' = registry w \<and> next_addr w' = next_addr w"
  by (auto simp: Entity_draw_def draw_components_frame split: option.splits)

lemma update_entities_frame:
  "update_entities w ps dt = Inr w' \<Longrightarrow>
     entities w' = entities w \<and> registry w' = registry w \<and> next_addr w' = next_addr w"
proof (induction ps arbitrary: w)
  case Nil
  then show ?case by simp
next
  case (Cons q ps)
  then obtain w0 where a: "Entity_update w q dt = Inr w0" and b: "update_entities w0 ps dt = Inr w'"
    by (auto split: sum.splits)
  from Cons.IH[OF b] Entity_update_frame[OF a] show ?case by simp
qed

lemma draw_entities_frame:
  "draw_entities w ps = Inr w' \<Longrightarrow>
     entities w' = entities w \<and> registry w' = registry w \<and> next_addr w' = next_addr w"
proof (induction ps arbitrary: w)
  case Nil
  then show ?case by simp
next
  case (Cons q ps)
  then obtain w0 where a: "Entity_draw w q = Inr w0" and b: "draw_entities w0 ps = Inr w'"
    by (auto split: sum.splits)
  from Cons.IH[OF b] Entity_draw_frame[OF a] show ?case by simp
qed

text \<open>A step that changes the registry only, keeping the ids it has given out.\<close>

lemma registry_step_preserves:
  assumes "get_component_type_id U (registry w) = (j, r)"
  shows "preserves p T c w (w\<lparr>registry := r\<rparr>)"
proof -
  have "components_registered (w\<lparr>registry := r\<rparr>)" if "components_registered w"
    using that type_id_kept[OF assms]
    unfolding components_registered_def by fastforce
  with type_id_kept[OF assms] show ?thesis
    by (auto simp: preserves_def alloc_ok_def slot_def instances_of_def)
qed

text \<open>A step that leaves the registry, the allocator and the component fields alone.\<close>

lemma entity_step_preserves:
  assumes "entities w q = Some e"
    and "m_components e' = m_components e"
    and "m_component_array e' = m_component_array e"
    and "m_component_bitset e' = m_component_bitset e"
    and "entities w' = (entities w)(q \<mapsto> e')"
    and "registry w' = registry w" and "next_addr w' = next_addr w"
  shows "preserves p T c w w'"
proof -
  have "components_registered w'" if "components_registered w"
    using that assms
    unfolding components_registered_def by (auto split: if_splits)
  with assms show ?thesis
    by (auto simp: preserves_def alloc_ok_def slot_def instances_of_def)
qed

text \<open>A step that leaves the entities and the registry alone.\<close>

lemma same_store_step_preserves:
  assumes "entities w' = entities w \<and> registry w' = registry w \<and> next_addr w \<le> next_addr w'"
  shows "preserves p T c w w'"
proof -
  from assms have e: "entities w' = entities w" and r: "registry w' = registry w"
    and n: "next_addr w \<le> next_addr w'"
    by simp_all
  have a: "alloc_ok w'" if "alloc_ok w"
    using that n unfolding alloc_ok_def e by (auto intro: less_le_trans)
  have g: "components_registered w'" if "components_registered w"
    using that unfolding components_registered_def e r .
  show ?thesis
    using a g n by (simp add: preserves_def slot_def instances_of_def e r)
qed

text \<open>A step that constructs an entity at the next free address.\<close>

lemma new_entity_step_preserves:
  assumes "entities w' = (entities w)(next_addr w \<mapsto> Entity_ctor m)"
    and "registry w' = registry w" and "next_addr w' = Suc (next_addr w)"
  shows "preserves p T c w w'"
proof -
  have "components_registered w'" if "components_registered w"
    using that
    unfolding components_registered_def assms by (auto simp: Entity_ctor_def split: if_splits)
  then show ?thesis
    unfolding preserves_def alloc_ok_def slot_def instances_of_def assms
    by (auto simp: less_Suc_eq dest: bspec)
qed

lemma add_entity_preserves:
  assumes "add_entity w m = Inr (q, w')"
  shows "preserves p T c w w'"
proof -
  from assms have "entities w' = (entities w)(next_addr w \<mapsto> Entity_ctor m)"
    "registry w' = registry w" "next_addr w' = Suc (next_addr w)"
    by (auto simp: add_entity_def Let_def split: option.splits)
  then show ?thesis by (rule new_entity_step_preserves)
qed

lemma add_component_preserves:
  assumes "add_component off w q U = Inr (d, w')"
  shows "preserves p T c w w'"
proof -
  from add_component_result[OF assms] obtain e j r where e: "entities w q = Some e"
    and j: "get_component_type_id U (registry w) = (j, r)" "unat j < max_components"
      "\<not> bit (m_component_bitset e) (unat j)"
    and w': "w' = w\<lparr>registry := r,
                  entities := (entities w)(q \<mapsto>
                    e\<lparr>m_components := m_components e @
                        [(to_Component off U d, \<lparr>entity = Some q, dyn_type = U\<rparr>)],
                      m_component_array :=
                        (m_component_array e)(unat j := Some (to_Component off U d)),
                      m_component_bitset := set_bit (unat j) (m_component_bitset e)\<rparr>),
                  next_addr := Suc (to_Component off U d)\<rparr>"
    and d: "d = next_addr w"
    by blast
  from j(2) have pb: "possible_bit TYPE(32 word) (unat j)"
    by (simp add: max_components_def)
  have a: "alloc_ok w'" if ok: "alloc_ok w"
  proof -
    have "dom (entities w') = dom (entities w)"
      using e by (auto simp: w')
    moreover have "next_addr w \<le> next_addr w'"
      by (simp add: w' d to_Component_def)
    ultimately show ?thesis
      using ok unfolding alloc_ok_def by (auto intro: less_le_trans)
  qed
  have n: "entities w' p = None" if "entities w p = None"
    using that e by (auto simp: w')
  have s: "slot w' p T c \<and> instances_of w' p T = instances_of w p T" if "slot w p T c"
  proof (cases "q = p")
    case False
    with that type_id_kept[OF j(1)] show ?thesis
      by (auto simp: slot_def instances_of_def w')
  next
    case True
    from that obtain e0 i where i: "entities w p = Some e0" "type_id (registry w) T = Some i"
      "unat i < max_components" "bit (m_component_bitset e0) (unat i)"
      "m_component_array e0 (unat i) = Some c"
      by (auto simp: slot_def)
    with True e have e0: "e0 = e" by simp
    from i(4) j(3) e0 have ne: "unat i \<noteq> unat j" by auto
    have "U \<noteq> T"
    proof
      assume "U = T"
      with type_id_known[OF i(2)] j(1) have "i = j" by simp
      with ne show False by simp
    qed
    with True e i e0 ne type_id_kept[OF j(1) i(2)] show ?thesis
      by (auto simp: slot_def instances_of_def w' bit_set_bit_iff)
  qed
  have r: "components_registered w'" if reg: "components_registered w"
    unfolding components_registered_def
  proof (intro allI impI, elim conjE)
    fix q' e' x
    assume q': "entities w' q' = Some e'" and x: "x \<in> set (m_components e')"
    show "\<exists>i. type_id (registry w') (dyn_type (snd x)) = Some i \<and>
             unat i < max_components \<and> bit (m_component_bitset e') (unat i)"
    proof (cases "q' = q \<and> x = (to_Component off U d, \<lparr>entity = Some q, dyn_type = U\<rparr>)")
      case True
      with q' type_id_registered[OF j(1)] j(2) pb show ?thesis
        by (auto simp: w' bit_set_bit_iff)
    next
      case False
      with q' x e obtain e0 where e0: "entities w q' = Some e0" "x \<in> set (m_components e0)"
        and bits: "\<forall>n. bit (m_component_bitset e0) n \<longrightarrow> bit (m_component_bitset e') n"
        by (auto simp: w' bit_set_bit_iff split: if_splits)
      from reg e0 obtain i where "type_id (registry w) (dyn_type (snd x)) = Some i"
        "unat i < max_components" "bit (m_component_bitset e0) (unat i)"
        unfolding components_registered_def by blast
      with type_id_kept[OF j(1)] bits show ?thesis
        by (auto simp: w')
    qed
  qed
  show ?thesis
    using a n s r by (auto simp: preserves_def w' d to_Component_def)
qed

lemma get_component_result:
  assumes "get_component w q U = Inr (d, w')"
  shows "\<exists>j r. get_component_type_id U (registry w) = (j, r) \<and> w' = w\<lparr>registry := r\<rparr>"
proof -
  from assms obtain b w0 where h: "has_component w q U = Inr (b, w0)"
    by (auto simp: get_component_def split: sum.splits)
  from has_component_result[OF h] obtain e j r
    where j: "get_component_type_id U (registry w) = (j, r)" and w0: "w0 = w\<lparr>registry := r\<rparr>"
    by blast
  have again: "get_component_type_id U r = (j, r)"
    using type_id_registered[OF j] by (rule type_id_known)
  from assms have "w' = w\<lparr>registry := r\<rparr>"
    by (auto simp: get_component_def h w0 again split: if_splits option.splits)
  with j show ?thesis by blast
qed

lemma refresh_preserves:
  assumes "refresh w m = Inr w'"
  shows "preserves p T c w w'"
proof -
  from refresh_result[OF assms] obtain mgr where "managers w m = Some mgr" and
    "w' = w\<lparr>entities := (\<lambda>q. if q \<in> set (m_entities mgr) \<and> \<not> alive_in (entities w) q
                               then None else entities w q),
            managers := (managers w)(m \<mapsto>
              \<lparr>m_entities = filter (alive_in (entities w)) (m_entities mgr),
               m_groupedEntities = (\<lambda>g. if g < max_groups
                  then filter (\<lambda>p. group_pred (entities w) g p = Inr False)
                         (m_groupedEntities mgr g)
                  else m_groupedEntities mgr g)\<rparr>)\<rparr>"
    by blast
  then have w': "entities w' = (\<lambda>q. if q \<in> set (m_entities mgr) \<and> \<not> alive_in (entities w) q
                               then None else entities w q)"
      "registry w' = registry w" "next_addr w' = next_addr w"
    by simp_all
  have "components_registered w'" if "components_registered w"
    using that
    unfolding components_registered_def w' by (auto split: if_splits)
  then show ?thesis
    unfolding preserves_def alloc_ok_def slot_def instances_of_def w'
    by (auto split: if_splits)
qed

lemma destroy_preserves:
  assumes "destroy_at w q = Inr w'"
  shows "preserves p T c w w'"
proof -
  from assms obtain e where e: "entities w q = Some e"
    and w': "w' = w\<lparr>entities := (entities w)(q \<mapsto> destroy e)\<rparr>"
    by (auto simp: destroy_at_def split: option.splits)
  show ?thesis
    by (rule entity_step_preserves[OF e, where e' = "destroy e"])
      (simp_all add: w' destroy_def)
qed

lemma add_group_preserves:
  assumes "add_group w q g = Inr w'"
  shows "preserves p T c w w'"
proof -
  from assms obtain e where e: "entities w q = Some e"
    and w': "entities w' = (entities w)(q \<mapsto> e\<lparr>m_group_bitset := set_bit g (m_group_bitset e)\<rparr>)"
      "registry w' = registry w" "next_addr w' = next_addr w"
    by (auto simp: add_group_def add_to_group_def split: option.splits if_splits)
  show ?thesis
    by (rule entity_step_preserves[OF e,
          where e' = "e\<lparr>m_group_bitset := set_bit g (m_group_bitset e)\<rparr>"])
      (simp_all add: w')
qed

lemma remove_group_preserves:
  assumes "remove_group_at w q g = Inr w'"
  shows "preserves p T c w w'"
proof -
  from assms obtain e where e: "entities w q = Some e"
    and w': "w' = w\<lparr>entities := (entities w)(q \<mapsto>
                e\<lparr>m_group_bitset := unset_bit g (m_group_bitset e)\<rparr>)\<rparr>"
    by (auto simp: remove_group_at_def remove_group_def split: option.splits if_splits)
  show ?thesis
    by (rule entity_step_preserves[OF e,
          where e' = "e\<lparr>m_group_bitset := unset_bit g (m_group_bitset e)\<rparr>"])
      (simp_all add: w')
qed

lemma step_preserves:
  assumes "step off w w'"
  shows "preserves p T c w w'"
  using assms
proof cases
  case (step_new_EntityManager m)
  then show ?thesis
    by (auto simp: new_EntityManager_def intro!: same_store_step_preserves)
next
  case (step_new_Entity m q)
  then show ?thesis
    by (auto simp: new_Entity_def intro!: new_entity_step_preserves)
next
  case (step_type_id U i r)
  then show ?thesis by (simp add: registry_step_preserves)
next
  case (step_add_entity m q)
  then show ?thesis by (rule add_entity_preserves)
next
  case (step_destroy q)
  then show ?thesis by (rule destroy_preserves)
next
  case (step_add_group q g)
  then show ?thesis by (rule add_group_preserves)
next
  case (step_remove_group q g)
  then show ?thesis by (rule remove_group_preserves)
next
  case (step_add_to_group m q g)
  then show ?thesis
    by (auto simp: add_to_group_def split: option.splits if_splits
        intro!: same_store_step_preserves)
next
  case (step_has_component q U b)
  from has_component_result[OF this] show ?thesis
    by (auto simp: registry_step_preserves)
next
  case (step_add_component q U d)
  then show ?thesis by (rule add_component_preserves)
next
  case (step_get_component q U d)
  from get_component_result[OF this] show ?thesis
    by (auto simp: registry_step_preserves)
next
  case (step_Entity_update q dt)
  from Entity_update_frame[OF this] show ?thesis
    by (intro same_store_step_preserves) simp
next
  case (step_Entity_draw q)
  from Entity_draw_frame[OF this] show ?thesis
    by (intro same_store_step_preserves) simp
next
  case (step_update m dt)
  then show ?thesis
    by (auto simp: EntityManager_update_def split: option.splits
        intro!: same_store_step_preserves dest: update_entities_frame)
next
  case (step_draw m)
  then show ?thesis
    by (auto simp: EntityManager_draw_def split: option.splits
        intro!: same_store_step_preserves dest: draw_entities_frame)
next
  case (step_refresh m)
  then show ?thesis by (rule refresh_preserves)
qed

lemma steps_preserve:
  assumes "(step off)\<^sup>*\<^sup>* w1 w2" and "alloc_ok w1" and "slot w1 p T c"
  shows "alloc_ok w2 \<and> p < next_addr w2 \<and>
     (p \<in> dom (entities w2) \<longrightarrow> slot w2 p T c \<and> instances_of w2 p T = instances_of w1 p T)"
  using assms(1)
proof (induction rule: rtranclp_induct)
  case base
  from assms(2,3) show ?case
    by (auto simp: alloc_ok_def slot_def)
next
  case (step y z)
  from step_preserves[OF step.hyps(2), of p T c] step.IH show ?case
    unfolding preserves_def by (cases "entities y p") auto
qed

text \<open>
  Every state that calls of the interface lead to from the initial one hands out fresh
  addresses and has the components of its entities registered.
\<close>

lemma reachable_invariants:
  assumes "reachable off w"
  shows "alloc_ok w \<and> components_registered w"
  using assms unfolding reachable_def
proof (induction rule: rtranclp_induct)
  case base
  show ?case
    by (simp add: alloc_ok_def components_registered_def initial_world_def)
next
  case (step y z)
  from step_preserves[OF step.hyps(2), of 0 0 0] step.IH show ?case
    by (simp add: preserves_def)
qed

text \<open>An entity without the bit of \<open>T\<close> owns no component of class \<open>T\<close>.\<close>

lemma no_instances_before:
  assumes "add_component off w p T = Inr (c, w1)" and "components_registered w"
  shows "instances_of w p T = []"
proof -
  from add_component_result[OF assms(1)] obtain e i r where e: "entities w p = Some e"
    and i: "get_component_type_id T (registry w) = (i, r)"
      "\<not> bit (m_component_bitset e) (unat i)"
    by blast
  have "dyn_type (snd x) \<noteq> T" if "x \<in> set (m_components e)" for x
  proof
    assume T: "dyn_type (snd x) = T"
    from assms(2) e that obtain k where k: "type_id (registry w) (dyn_type (snd x)) = Some k"
      "bit (m_component_bitset e) (unat k)"
      unfolding components_registered_def by blast
    from type_id_known[OF k(1)] T i(1) have "k = i" by simp
    with k(2) i(2) show False by simp
  qed
  then show ?thesis
    by (simp add: instances_of_def e filter_empty_conv)
qed

text \<open>
  What \<^verbatim>\<open>add_component<T>\<close> on the entity at \<open>p\<close> establishes when it has returned the
  object \<open>c\<close>: \<^verbatim>\<open>has_component<T>\<close> is true, a second \<^verbatim>\<open>add_component<T>\<close> fails its
  assertion, and the components of class \<open>T\<close> of the entity are those it had before
  followed by the new one (exactly the new one in a state whose components are registered,
  as they are in every reachable state). \<^verbatim>\<open>get_component<T>\<close> leaves the state as it is
  and returns the address of the \<^verbatim>\<open>Component\<close> subobject of \<open>c\<close>, not adjusted back. All
  of this stays so after any number of further calls of the interface, for as long as the
  entity is in the store.
\<close>

lemma add_component_then:
  assumes "add_component off w p T = Inr (c, w1)"
  shows "has_component w1 p T = Inr (True, w1) \<and>
     get_component w1 p T = Inr (to_Component off T c, w1) \<and>
     add_component off w1 p T = Inl AssertFailed \<and>
     instances_of w1 p T =
       instances_of w p T @ [(to_Component off T c, \<lparr>entity = Some p, dyn_type = T\<rparr>)] \<and>
     (components_registered w \<longrightarrow>
        instances_of w1 p T = [(to_Component off T c, \<lparr>entity = Some p, dyn_type = T\<rparr>)]) \<and>
     (\<forall>w2. alloc_ok w1 \<and> (step off)\<^sup>*\<^sup>* w1 w2 \<and> p \<in> dom (entities w2) \<longrightarrow>
        has_component w2 p T = Inr (True, w2) \<and>
        get_component w2 p T = Inr (to_Component off T c, w2) \<and>
        add_component off w2 p T = Inl AssertFailed \<and>
        instances_of w2 p T = instances_of w1 p T)"
proof -
  note s = add_component_slot[OF assms]
  have "has_component w2 p T = Inr (True, w2) \<and>
        get_component w2 p T = Inr (to_Component off T c, w2) \<and>
        add_component off w2 p T = Inl AssertFailed \<and>
        instances_of w2 p T = instances_of w1 p T"
    if "alloc_ok w1" and "(step off)\<^sup>*\<^sup>* w1 w2" and "p \<in> dom (entities w2)" for w2
  proof -
    from steps_preserve[OF that(2,1) s(1)] that(3)
    have "slot w2 p T (to_Component off T c)"
      and "instances_of w2 p T = instances_of w1 p T"
      by simp_all
    then show ?thesis by (simp add: slot_calls)
  qed
  moreover have "instances_of w1 p T =
      [(to_Component off T c, \<lparr>entity = Some p, dyn_type = T\<rparr>)]"
    if "components_registered w"
    using s(2) no_instances_before[OF assms that] by simp
  ultimately show ?thesis
    using slot_calls[OF s(1)] s(2) by blast
qed

text \<open>
  So \<^verbatim>\<open>get_component<T>\<close> returns the object that \<^verbatim>\<open>add_component<T>\<close> created exactly
  when the \<^verbatim>\<open>Component\<close> base of \<^verbatim>\<open>T\<close> lies at offset 0.
\<close>

lemma get_component_same_instance_iff:
  assumes "add_component off w p T = Inr (c, w1)"
  shows "get_component w1 p T = Inr (c, w1) \<longleftrightarrow> off T = 0"
  using add_component_then[OF assms] by (auto simp: to_Component_def)


end
